theory Spec2Isabelle
  imports Main "HOL-Library.AList"
begin

section \<open>Python strings\<close>

text \<open>
  A Python \<open>str\<close> is a sequence of Unicode code points; a code point is a natural
  number and a string is a list of them.  (The byte strings of HOL would count the
  three UTF-8 bytes of a CJK character one by one, which \<open>len\<close>, slicing and the
  regular expression engine of Python do not.)
\<close>

type_synonym pychar = nat
type_synonym pystr = "pychar list"

text \<open>The literals of the three scripts, code point by code point.\<close>

definition PREFIX :: pystr where
  \<comment> \<open>U+534F U+5546 U+89E3 U+9664 U+52B3 U+52A8 U+5408 U+540C U+534F U+8BAE U+4E66 and \<open>_\<close>\<close>
  "PREFIX = [21327, 21830, 35299, 38500, 21171, 21160, 21512, 21516, 21327, 35758, 20070, 95]"

definition MARKER :: pystr where
  \<comment> \<open>the marker word of the move pipeline, U+627F U+8BFA U+4E66\<close>
  "MARKER = [25215, 35834, 20070]"

definition DOT_PDF :: pystr where
  \<comment> \<open>\<open>.pdf\<close>\<close>
  "DOT_PDF = [46, 112, 100, 102]"

definition nd_bases :: "nat list" where
  \<comment> \<open>the code point of the digit zero of every decimal digit block (general category
      Nd, Unicode 14.0): each block holds the ten digits in order\<close>
  "nd_bases = [48, 1632, 1776, 1984, 2406, 2534, 2662, 2790, 2918, 3046, 3174, 3302,
     3430, 3558, 3664, 3792, 3872, 4160, 4240, 6112, 6160, 6470, 6608, 6784, 6800, 6992,
     7088, 7232, 7248, 42528, 43216, 43264, 43472, 43504, 43600, 44016, 65296, 66720,
     68912, 69734, 69872, 69942, 70096, 70384, 70736, 70864, 71248, 71360, 71472, 71904,
     72016, 72784, 73040, 73120, 92768, 92864, 93008, 120782, 120792, 120802, 120812,
     120822, 123200, 123632, 125264, 130032]"

definition is_decimal :: "pychar \<Rightarrow> bool" where
  \<comment> \<open>what \<open>\d\<close> matches in a \<open>str\<close> pattern: any Unicode decimal digit\<close>
  "is_decimal c = list_ex (\<lambda>b. b \<le> c \<and> c < b + 10) nd_bases"

definition ascii_upper :: "pychar \<Rightarrow> pychar" where
  "ascii_upper c = (if 97 \<le> c \<and> c \<le> 122 then c - 32 else c)"

definition ascii_lower :: "pychar \<Rightarrow> pychar" where
  "ascii_lower c = (if 65 \<le> c \<and> c \<le> 90 then c + 32 else c)"

definition py_upper :: "pystr \<Rightarrow> pystr" where
  \<comment> \<open>\<open>str.upper\<close> on the Basic Latin block; a code point from 128 on is kept, as Python
      keeps every uncased character (digits of any script, CJK ideographs, punctuation)\<close>
  "py_upper s = map ascii_upper s"

definition py_lower :: "pystr \<Rightarrow> pystr" where
  \<comment> \<open>\<open>str.lower\<close>, on the same terms as \<open>py_upper\<close>\<close>
  "py_lower s = map ascii_lower s"

definition startswith :: "pystr \<Rightarrow> pystr \<Rightarrow> bool" where
  "startswith s p = (take (length p) s = p)"

definition endswith :: "pystr \<Rightarrow> pystr \<Rightarrow> bool" where
  "endswith s p = (length p \<le> length s \<and> drop (length s - length p) s = p)"

fun py_in :: "pystr \<Rightarrow> pystr \<Rightarrow> bool" where
  \<comment> \<open>\<open>sub in s\<close>\<close>
  "py_in sub [] = (sub = [])"
| "py_in sub (x # xs) = (startswith (x # xs) sub \<or> py_in sub xs)"

definition is_space :: "pychar \<Rightarrow> bool" where
  \<comment> \<open>the characters \<open>str.strip()\<close> removes (\<open>str.isspace\<close>)\<close>
  "is_space c = (c \<in> set [9, 10, 11, 12, 13, 28, 29, 30, 31, 32, 133, 160, 5760, 8192, 8193,
     8194, 8195, 8196, 8197, 8198, 8199, 8200, 8201, 8202, 8232, 8233, 8239, 8287, 12288])"

definition strip :: "pystr \<Rightarrow> pystr" where
  "strip s = rev (dropWhile is_space (rev (dropWhile is_space s)))"

section \<open>The regular expressions of the scripts\<close>

text \<open>
  The patterns of the three scripts use literals, the classes \<open>\d\<close>, \<open>[\dX]\<close> and
  \<open>.\<close>, the quantifiers \<open>+\<close>, \<open>+?\<close> and \<open>{n}\<close> on a class, one optional
  non-capturing group, capturing groups and the anchors \<open>^\<close> and \<open>$\<close>.  A pattern is
  the list of its items; \<open>rx\<close> is the backtracking matcher of Python's \<open>re\<close>: it
  returns the first match in the engine's order of preference (a greedy quantifier
  tries the longest repetition first, a lazy one the shortest).
\<close>

datatype cls = Digit | DigitOrX | Dot

datatype item =
    Lit pychar
  | One cls
  | Plus cls
  | PlusLazy cls
  | Star cls
  | StarLazy cls
  | Rep nat cls
  | Opt "item list"
  | GOpen nat
  | GClose nat
  | Bol
  | Eol

fun in_cls :: "bool \<Rightarrow> cls \<Rightarrow> pychar \<Rightarrow> bool" where
  \<comment> \<open>the first argument is the flag \<open>re.IGNORECASE\<close>; \<open>.\<close> excludes the newline\<close>
  "in_cls ic Digit c = is_decimal c"
| "in_cls ic DigitOrX c = (is_decimal c \<or> c = 88 \<or> (ic \<and> c = 120))"
| "in_cls ic Dot c = (c \<noteq> 10)"

definition lit_eq :: "bool \<Rightarrow> pychar \<Rightarrow> pychar \<Rightarrow> bool" where
  "lit_eq ic a c = (c = a \<or> (ic \<and> ascii_lower c = ascii_lower a))"

fun weight :: "item \<Rightarrow> nat" where
  "weight (Plus c) = 2"
| "weight (PlusLazy c) = 2"
| "weight (Rep n c) = Suc n"
| "weight (Opt xs) = Suc (sum_list (map weight xs))"
| "weight _ = 1"

type_synonym caps = "(nat \<times> pystr) list"

text \<open>
  \<open>rx ic items b r os gs\<close>: \<open>b\<close> says that the position is the start of the string,
  \<open>r\<close> is the input from the position on, \<open>os\<close> holds the input at each group's
  opening and \<open>gs\<close> the text of each closed group.  The result is the groups and the
  input left after the match.
\<close>

function rx :: "bool \<Rightarrow> item list \<Rightarrow> bool \<Rightarrow> pystr \<Rightarrow> caps \<Rightarrow> caps \<Rightarrow> (caps \<times> pystr) option" where
  "rx ic [] b r os gs = Some (gs, r)"
| "rx ic (Lit a # k) b r os gs =
     (case r of [] \<Rightarrow> None
      | x # r' \<Rightarrow> if lit_eq ic a x then rx ic k False r' os gs else None)"
| "rx ic (One c # k) b r os gs =
     (case r of [] \<Rightarrow> None
      | x # r' \<Rightarrow> if in_cls ic c x then rx ic k False r' os gs else None)"
| "rx ic (Plus c # k) b r os gs =
     (case r of [] \<Rightarrow> None
      | x # r' \<Rightarrow> if in_cls ic c x then rx ic (Star c # k) False r' os gs else None)"
| "rx ic (PlusLazy c # k) b r os gs =
     (case r of [] \<Rightarrow> None
      | x # r' \<Rightarrow> if in_cls ic c x then rx ic (StarLazy c # k) False r' os gs else None)"
| "rx ic (Star c # k) b r os gs =
     (case r of [] \<Rightarrow> rx ic k b r os gs
      | x # r' \<Rightarrow>
          if in_cls ic c x
          then (case rx ic (Star c # k) False r' os gs of
                  Some res \<Rightarrow> Some res
                | None \<Rightarrow> rx ic k b r os gs)
          else rx ic k b r os gs)"
| "rx ic (StarLazy c # k) b r os gs =
     (case rx ic k b r os gs of
        Some res \<Rightarrow> Some res
      | None \<Rightarrow>
          (case r of [] \<Rightarrow> None
           | x # r' \<Rightarrow> if in_cls ic c x then rx ic (StarLazy c # k) False r' os gs else None))"
| "rx ic (Rep 0 c # k) b r os gs = rx ic k b r os gs"
| "rx ic (Rep (Suc n) c # k) b r os gs =
     (case r of [] \<Rightarrow> None
      | x # r' \<Rightarrow> if in_cls ic c x then rx ic (Rep n c # k) False r' os gs else None)"
| "rx ic (Opt xs # k) b r os gs =
     (case rx ic (xs @ k) b r os gs of
        Some res \<Rightarrow> Some res
      | None \<Rightarrow> rx ic k b r os gs)"
| "rx ic (GOpen n # k) b r os gs = rx ic k b r ((n, r) # os) gs"
| "rx ic (GClose n # k) b r os gs =
     (case map_of os n of
        None \<Rightarrow> None
      | Some r0 \<Rightarrow> rx ic k b r os ((n, take (length r0 - length r) r0) # gs))"
| "rx ic (Bol # k) b r os gs = (if b then rx ic k b r os gs else None)"
| "rx ic (Eol # k) b r os gs = (if r = [] \<or> r = [10] then rx ic k b r os gs else None)"
  by pat_completeness auto
termination
  by (relation "measures [\<lambda>(ic, items, b, r, os, gs). sum_list (map weight items),
                          \<lambda>(ic, items, b, r, os, gs). length r]") auto

declare rx.simps [simp del]

definition re_match :: "bool \<Rightarrow> item list \<Rightarrow> pystr \<Rightarrow> (caps \<times> pystr) option" where
  \<comment> \<open>\<open>re.match\<close>: a match that begins at the start of the string; nothing is asked of
      the input after it\<close>
  "re_match ic pat s = rx ic pat True s [] []"

fun search_from :: "bool \<Rightarrow> item list \<Rightarrow> bool \<Rightarrow> pystr \<Rightarrow> (caps \<times> pystr) option" where
  "search_from ic pat b [] = rx ic pat b [] [] []"
| "search_from ic pat b (x # r) =
     (case rx ic pat b (x # r) [] [] of
        Some res \<Rightarrow> Some res
      | None \<Rightarrow> search_from ic pat False r)"

definition re_search :: "bool \<Rightarrow> item list \<Rightarrow> pystr \<Rightarrow> (caps \<times> pystr) option" where
  \<comment> \<open>\<open>re.search\<close>: the match at the leftmost position that has one\<close>
  "re_search ic pat s = search_from ic pat True s"

function re_findall :: "bool \<Rightarrow> item list \<Rightarrow> pystr \<Rightarrow> pystr list" where
  \<comment> \<open>\<open>re.findall\<close> for a pattern without groups: the texts of the non-overlapping
      matches, left to right; after an empty match the scan moves one character on\<close>
  "re_findall ic pat r =
     (case rx ic pat False r [] [] of
        None \<Rightarrow> (case r of [] \<Rightarrow> [] | x # r' \<Rightarrow> re_findall ic pat r')
      | Some (gs, rest) \<Rightarrow>
          (let n = length r - length rest
           in take n r # (if r = [] then [] else re_findall ic pat (drop (max n 1) r))))"
  by pat_completeness auto
termination
  by (relation "measure (\<lambda>(ic, pat, r). length r)") auto

declare re_findall.simps [simp del]

definition group :: "caps \<Rightarrow> nat \<Rightarrow> pystr option" where
  "group gs n = map_of gs n"

section \<open>Grammar A: the contract number (main.py)\<close>

definition contract_pattern :: "item list" where
  "contract_pattern =
     map Lit PREFIX @ [GOpen 1, Plus Digit, GClose 1] @ map Lit DOT_PDF"

definition extract_contract_number :: "pystr \<Rightarrow> pystr option" where
  "extract_contract_number pdf_filename =
     (case re_match False contract_pattern pdf_filename of
        Some (gs, rest) \<Rightarrow> group gs 1
      | None \<Rightarrow> None)"

section \<open>Grammar C: the bare name (match_pdfs_by_name.py)\<close>

definition paren_digits :: item where
  \<comment> \<open>\<open>(?:\(\d+\))?\<close>\<close>
  "paren_digits = Opt [Lit 40, Plus Digit, Lit 41]"

definition pattern1 :: "item list" where
  "pattern1 = [Bol, GOpen 1, PlusLazy Dot, GClose 1, Lit 45] @ map Lit MARKER
               @ [paren_digits] @ map Lit DOT_PDF @ [Eol]"

definition pattern2 :: "item list" where
  "pattern2 = [Bol] @ map Lit MARKER @ [Lit 45, GOpen 1, PlusLazy Dot, GClose 1, paren_digits]
               @ map Lit DOT_PDF @ [Eol]"

definition pattern3 :: "item list" where
  "pattern3 = [Bol, GOpen 1, PlusLazy Dot, GClose 1, Lit 45, GOpen 2, PlusLazy Dot, GClose 2,
               paren_digits] @ map Lit DOT_PDF @ [Eol]"

definition try_pattern1 :: "pystr \<Rightarrow> pystr option" where
  "try_pattern1 pdf_filename =
     (case re_match False pattern1 pdf_filename of
        None \<Rightarrow> None
      | Some (gs, rest) \<Rightarrow>
          (case group gs 1 of
             None \<Rightarrow> None
           | Some g1 \<Rightarrow> let name = strip g1 in if name \<noteq> [] then Some name else None))"

definition try_pattern2 :: "pystr \<Rightarrow> pystr option" where
  "try_pattern2 pdf_filename =
     (case re_match False pattern2 pdf_filename of
        None \<Rightarrow> None
      | Some (gs, rest) \<Rightarrow>
          (case group gs 1 of
             None \<Rightarrow> None
           | Some g1 \<Rightarrow> let name = strip g1 in if name \<noteq> [] then Some name else None))"

definition try_pattern3 :: "pystr \<Rightarrow> pystr option" where
  "try_pattern3 pdf_filename =
     (case re_match False pattern3 pdf_filename of
        None \<Rightarrow> None
      | Some (gs, rest) \<Rightarrow>
          (case (group gs 1, group gs 2) of
             (Some g1, Some g2) \<Rightarrow>
               (let part1 = strip g1; part2 = strip g2
                in if py_in MARKER part2 then (if part1 \<noteq> [] then Some part1 else None)
                   else if py_in MARKER part1 then (if part2 \<noteq> [] then Some part2 else None)
                   else None)
           | _ \<Rightarrow> None))"

definition extract_name_from_filename :: "pystr \<Rightarrow> pystr option" where
  "extract_name_from_filename pdf_filename =
     (case try_pattern1 pdf_filename of
        Some name \<Rightarrow> Some name
      | None \<Rightarrow>
          (case try_pattern2 pdf_filename of
             Some name \<Rightarrow> Some name
           | None \<Rightarrow> try_pattern3 pdf_filename))"

section \<open>Grammar B: name and ID number (match_pdfs.py)\<close>

definition id_pattern :: "item list" where
  \<comment> \<open>\<open>\d{17}[\dX]\<close>\<close>
  "id_pattern = [Rep 17 Digit, One DigitOrX]"

definition name_id_pattern :: "item list" where
  \<comment> \<open>the prefix, \<open>(.+?)(\d{17}[\dX])\.pdf\<close>\<close>
  "name_id_pattern =
     map Lit PREFIX @ [GOpen 1, PlusLazy Dot, GClose 1, GOpen 2, Rep 17 Digit, One DigitOrX, GClose 2]
       @ map Lit DOT_PDF"

fun py_replace :: "pystr \<Rightarrow> pystr \<Rightarrow> pystr \<Rightarrow> pystr" where
  \<comment> \<open>\<open>s.replace(old, new)\<close> for a non-empty \<open>old\<close>: every occurrence, left to right,
      without overlap\<close>
  "py_replace old new [] = []"
| "py_replace old new (x # xs) =
     (if old \<noteq> [] \<and> startswith (x # xs) old
      then new @ py_replace old new (drop (length old - 1) xs)
      else x # py_replace old new xs)"

definition primary_match :: "pystr \<Rightarrow> (caps \<times> pystr) option" where
  \<comment> \<open>\<open>re.search(pattern, pdf_filename, re.IGNORECASE)\<close>\<close>
  "primary_match pdf_filename = re_search True name_id_pattern pdf_filename"

definition extract_name_and_id_from_filename :: "pystr \<Rightarrow> (pystr \<times> pystr) option" where
  "extract_name_and_id_from_filename pdf_filename =
     (let name_without_ext = py_replace DOT_PDF [] pdf_filename
      in case primary_match pdf_filename of
           Some (gs, rest) \<Rightarrow>
             (case (group gs 1, group gs 2) of
                (Some name, Some g2) \<Rightarrow> Some (name, py_upper g2)
              | _ \<Rightarrow> None)
         | None \<Rightarrow>
             (let id_matches = re_findall True id_pattern name_without_ext
              in if id_matches \<noteq> []
                 then (let last_id = py_upper (last id_matches)
                       in if startswith name_without_ext PREFIX
                          then (let remaining = drop (length PREFIX) name_without_ext
                                in if endswith (py_upper remaining) last_id
                                   then Some (take (length remaining - 18) remaining, last_id)
                                   else None)
                          else None)
                 else None))"

section \<open>Numbers as text\<close>

fun py_str_nat :: "nat \<Rightarrow> pystr" where
  \<comment> \<open>\<open>str(n)\<close> for a non-negative integer\<close>
  "py_str_nat n = (if n < 10 then [48 + n] else py_str_nat (n div 10) @ [48 + n mod 10])"

declare py_str_nat.simps [simp del]

definition py_str_int :: "int \<Rightarrow> pystr" where
  "py_str_int i = (if i < 0 then 45 # py_str_nat (nat (- i)) else py_str_nat (nat i))"

definition digit_val :: "pychar \<Rightarrow> nat" where
  \<comment> \<open>the value of a decimal digit of any script\<close>
  "digit_val c = (case find (\<lambda>b. b \<le> c \<and> c < b + 10) nd_bases of Some b \<Rightarrow> c - b | None \<Rightarrow> 0)"

definition dec_value :: "pystr \<Rightarrow> nat" where
  "dec_value ds = foldl (\<lambda>a c. 10 * a + digit_val c) 0 ds"

text \<open>
  \<open>float(text)\<close> reads a decimal literal: underscores are dropped when each stands
  between two digits, white space is stripped, then come an optional sign and either
  \<open>inf\<close>, \<open>infinity\<close> or \<open>nan\<close> in any case, or digits with an optional point and an
  optional exponent.  The literal is kept exactly, as the sign, the integer \<open>m\<close> of all
  its digits and the power of ten \<open>x\<close>: its value is \<open>m * 10 ^ x\<close>.
\<close>

datatype exn = FileNotFoundError | ValueError | OverflowError | SameFileError | OSError

datatype literal = Number bool nat int | Infinity bool | NotANumber

definition float_space :: "pychar \<Rightarrow> bool" where
  "float_space c = (is_space c \<and> \<not> (28 \<le> c \<and> c \<le> 31))"

definition float_strip :: "pystr \<Rightarrow> pystr" where
  "float_strip s = rev (dropWhile float_space (rev (dropWhile float_space s)))"

fun underscores_ok :: "pychar \<Rightarrow> pystr \<Rightarrow> bool" where
  "underscores_ok prev [] = (prev \<noteq> 95)"
| "underscores_ok prev (c # cs) =
     ((if c = 95 then is_decimal prev else if prev = 95 then is_decimal c else True)
      \<and> underscores_ok c cs)"

definition drop_underscores :: "pystr \<Rightarrow> pystr option" where
  "drop_underscores s =
     (if 95 \<in> set s
      then (if underscores_ok 0 s then Some (filter (\<lambda>c. c \<noteq> 95) s) else None)
      else Some s)"

fun split_sign :: "pystr \<Rightarrow> bool \<times> pystr" where
  "split_sign [] = (False, [])"
| "split_sign (c # r) = (if c = 45 then (True, r) else if c = 43 then (False, r) else (False, c # r))"

definition parse_exponent :: "pystr \<Rightarrow> int option" where
  "parse_exponent r =
     (case r of
        [] \<Rightarrow> Some 0
      | c # r1 \<Rightarrow>
          if c = 101 \<or> c = 69
          then (case split_sign r1 of
                  (neg, r2) \<Rightarrow>
                    if r2 \<noteq> [] \<and> list_all is_decimal r2
                    then Some ((if neg then - 1 else 1) * int (dec_value r2))
                    else None)
          else None)"

definition parse_number :: "pystr \<Rightarrow> (nat \<times> int) option" where
  "parse_number r =
     (let ip = takeWhile is_decimal r;
          r1 = dropWhile is_decimal r;
          fp = (case r1 of [] \<Rightarrow> [] | c # r' \<Rightarrow> if c = 46 then takeWhile is_decimal r' else []);
          r2 = (case r1 of [] \<Rightarrow> [] | c # r' \<Rightarrow> if c = 46 then dropWhile is_decimal r' else r1)
      in if ip = [] \<and> fp = [] then None
         else (case parse_exponent r2 of
                 None \<Rightarrow> None
               | Some x \<Rightarrow> Some (dec_value (ip @ fp), x - int (length fp))))"

definition py_float_literal :: "pystr \<Rightarrow> exn + literal" where
  "py_float_literal s =
     (case drop_underscores s of
        None \<Rightarrow> Inl ValueError
      | Some u \<Rightarrow>
          (case split_sign (float_strip u) of
             (neg, r) \<Rightarrow>
               if py_lower r = [105, 110, 102] \<or> py_lower r = [105, 110, 102, 105, 110, 105, 116, 121]
               then Inr (Infinity neg)
               else if py_lower r = [110, 97, 110] then Inr NotANumber
               else (case parse_number r of
                       None \<Rightarrow> Inl ValueError
                     | Some (m, x) \<Rightarrow> Inr (Number neg m x))))"

fun bit_length :: "nat \<Rightarrow> nat" where
  "bit_length n = (if n = 0 then 0 else Suc (bit_length (n div 2)))"

declare bit_length.simps [simp del]

text \<open>
  \<open>int(float(...))\<close> of a literal.  The float is the binary64 number nearest to the
  literal's value \<open>num / den\<close>, ties to the even significand: with \<open>2 ^ e\<close> the power
  of two at or below the value, the value is rounded to a multiple of \<open>2 ^ (e - 52)\<close>.
  A result from \<open>2 ^ 1024\<close> on is the float \<open>inf\<close>, whose \<open>int\<close> raises OverflowError;
  \<open>int\<close> of \<open>nan\<close> raises ValueError.  \<open>int\<close> truncates, so below one half (where the
  float is below one whichever binade holds it) the exponent is not looked for.
\<close>

definition py_int_float :: "literal \<Rightarrow> exn + int" where
  "py_int_float l =
     (case l of
        Infinity neg \<Rightarrow> Inl OverflowError
      | NotANumber \<Rightarrow> Inl ValueError
      | Number neg m x \<Rightarrow>
          (let num = (if 0 \<le> x then m * 10 ^ nat x else m);
               den = (if 0 \<le> x then 1 else 10 ^ nat (- x));
               ip = num div den;
               e = (if ip = 0 then - 1 else int (bit_length ip) - 1);
               N = (if 52 \<le> e then num else num * 2 ^ nat (52 - e));
               D = (if 52 \<le> e then den * 2 ^ nat (e - 52) else den);
               f = N div D;
               rem = N mod D;
               k = (if D < 2 * rem \<or> (2 * rem = D \<and> odd f) then f + 1 else f);
               v = (if 52 \<le> e then k * 2 ^ nat (e - 52) else k div 2 ^ nat (52 - e))
           in if 2 ^ 1024 \<le> v then Inl OverflowError
              else Inr (if neg then - int v else int v)))"

definition normalize_numeric :: "pystr \<Rightarrow> pystr" where
  \<comment> \<open>the block \<open>if '.' in v: try: v = str(int(float(v))) except (ValueError,
      OverflowError): pass\<close> of main.py and match_pdfs.py\<close>
  "normalize_numeric v =
     (if 46 \<in> set v
      then (case py_float_literal v of
              Inl e \<Rightarrow> v
            | Inr l \<Rightarrow> (case py_int_float l of Inl e \<Rightarrow> v | Inr i \<Rightarrow> py_str_int i))
      else v)"

section \<open>The spreadsheet\<close>

text \<open>
  A data frame is its header row and its rows.  A header is the text \<open>str(col)\<close> of the
  column label and a column is named by its position (pandas keeps the labels of a
  sheet distinct).  A cell is \<open>None\<close> when it is missing (\<open>pd.isna\<close>) and otherwise
  holds the text \<open>str(value)\<close>.
\<close>

type_synonym cell = "pystr option"

record dataframe =
  columns :: "pystr list"
  rows :: "cell list list"

definition NAN :: pystr where
  "NAN = [110, 97, 110]"

definition CONTRACT_MARK :: pystr where
  "CONTRACT_MARK = [21512, 21516, 32534, 21495]"

definition NAME_MARK :: pystr where
  "NAME_MARK = [22995, 21517]"

definition ID_MARK :: pystr where
  "ID_MARK = [36523, 20221, 35777, 21495]"

definition ID_MARK_SHORT :: pystr where
  "ID_MARK_SHORT = [36523, 20221, 35777]"

definition SUCCESS :: pystr where
  "SUCCESS = [25104, 21151]"

definition FAILURE :: pystr where
  "FAILURE = [22833, 36133]"

definition cell_at :: "cell list \<Rightarrow> nat \<Rightarrow> cell" where
  \<comment> \<open>\<open>row[col]\<close>\<close>
  "cell_at row i = (if i < length row then row ! i else None)"

definition cell_str :: "cell \<Rightarrow> pystr" where
  \<comment> \<open>\<open>str(row[col])\<close>: a missing value prints as \<open>nan\<close>\<close>
  "cell_str c = (case c of None \<Rightarrow> NAN | Some t \<Rightarrow> t)"

fun first_col :: "(pystr \<Rightarrow> bool) \<Rightarrow> pystr list \<Rightarrow> nat \<Rightarrow> nat option" where
  \<comment> \<open>\<open>for col in df.columns: if hit(str(col).strip()): found = col; break\<close>, from
      position \<open>i\<close> on\<close>
  "first_col hit [] i = None"
| "first_col hit (col # cols) i = (if hit (strip col) then Some i else first_col hit cols (Suc i))"

definition id_hit :: "pystr \<Rightarrow> bool" where
  "id_hit col_str = (py_in ID_MARK col_str \<or> py_in ID_MARK_SHORT col_str)"

definition name_hit :: "pystr \<Rightarrow> bool" where
  "name_hit col_str = py_in NAME_MARK col_str"

definition contract_hit :: "pystr \<Rightarrow> bool" where
  "contract_hit col_str = py_in CONTRACT_MARK col_str"

definition resolve_id_col :: "dataframe \<Rightarrow> exn + nat" where
  \<comment> \<open>the column search of \<open>read_excel_dataframe\<close> in match_pdfs.py\<close>
  "resolve_id_col df =
     (case first_col id_hit (columns df) 0 of None \<Rightarrow> Inl ValueError | Some i \<Rightarrow> Inr i)"

definition resolve_name_col :: "dataframe \<Rightarrow> exn + nat" where
  \<comment> \<open>the column search of \<open>read_excel_dataframe\<close> in match_pdfs_by_name.py\<close>
  "resolve_name_col df =
     (case first_col name_hit (columns df) 0 of None \<Rightarrow> Inl ValueError | Some i \<Rightarrow> Inr i)"

fun scan_cols :: "pystr list \<Rightarrow> nat \<Rightarrow> nat option \<times> nat option \<times> nat option
                    \<Rightarrow> nat option \<times> nat option \<times> nat option" where
  \<comment> \<open>the column loop of \<open>read_excel_mapping\<close> in main.py: one pass, an
      \<open>if/elif/elif\<close> per header and no \<open>break\<close>\<close>
  "scan_cols [] i acc = acc"
| "scan_cols (col # cols) i (contract_col, name_col, id_col) =
     (let col_str = strip col
      in if contract_hit col_str then scan_cols cols (Suc i) (Some i, name_col, id_col)
         else if name_hit col_str then scan_cols cols (Suc i) (contract_col, Some i, id_col)
         else if id_hit col_str then scan_cols cols (Suc i) (contract_col, name_col, Some i)
         else scan_cols cols (Suc i) (contract_col, name_col, id_col))"

definition resolve_mapping_cols :: "dataframe \<Rightarrow> exn + nat \<times> nat \<times> nat" where
  "resolve_mapping_cols df =
     (case scan_cols (columns df) 0 (None, None, None) of
        (Some c, Some n, Some i) \<Rightarrow> Inr (c, n, i)
      | _ \<Rightarrow> Inl ValueError)"

definition absent :: "cell \<Rightarrow> pystr \<Rightarrow> bool" where
  \<comment> \<open>\<open>pd.isna(row[col]) or text == 'nan' or text == ''\<close>\<close>
  "absent c text = (c = None \<or> text = NAN \<or> text = [])"

fun collect_ids :: "nat \<Rightarrow> cell list list \<Rightarrow> pystr set \<Rightarrow> pystr set" where
  \<comment> \<open>the row loop of \<open>read_excel_id_numbers\<close>\<close>
  "collect_ids id_col [] id_numbers = id_numbers"
| "collect_ids id_col (row # others) id_numbers =
     (let id_value = strip (cell_str (cell_at row id_col))
      in if absent (cell_at row id_col) id_value then collect_ids id_col others id_numbers
         else collect_ids id_col others (insert (normalize_numeric id_value) id_numbers))"

definition read_excel_id_numbers :: "dataframe \<Rightarrow> exn + pystr set" where
  "read_excel_id_numbers df =
     (case resolve_id_col df of
        Inl e \<Rightarrow> Inl e
      | Inr id_col \<Rightarrow> Inr (collect_ids id_col (rows df) {}))"

fun collect_names :: "nat \<Rightarrow> cell list list \<Rightarrow> pystr set \<Rightarrow> pystr set" where
  \<comment> \<open>the row loop of \<open>read_excel_names\<close>\<close>
  "collect_names name_col [] names = names"
| "collect_names name_col (row # others) names =
     (let name_value = strip (cell_str (cell_at row name_col))
      in if absent (cell_at row name_col) name_value then collect_names name_col others names
         else collect_names name_col others (insert name_value names))"

definition read_excel_names :: "dataframe \<Rightarrow> exn + pystr set" where
  "read_excel_names df =
     (case resolve_name_col df of
        Inl e \<Rightarrow> Inl e
      | Inr name_col \<Rightarrow> Inr (collect_names name_col (rows df) {}))"

fun build_mapping :: "nat \<times> nat \<times> nat \<Rightarrow> cell list list \<Rightarrow> (pystr \<rightharpoonup> pystr \<times> pystr)
                        \<Rightarrow> (pystr \<rightharpoonup> pystr \<times> pystr)" where
  \<comment> \<open>the row loop of \<open>read_excel_mapping\<close>\<close>
  "build_mapping cols [] mapping = mapping"
| "build_mapping (contract_col, name_col, id_col) (row # others) mapping =
     (let contract_num = strip (cell_str (cell_at row contract_col));
          name = strip (cell_str (cell_at row name_col));
          id_num = strip (cell_str (cell_at row id_col))
      in if absent (cell_at row contract_col) contract_num
         then build_mapping (contract_col, name_col, id_col) others mapping
         else build_mapping (contract_col, name_col, id_col) others
                (mapping(normalize_numeric contract_num \<mapsto> (name, id_num))))"

definition read_excel_mapping :: "dataframe \<Rightarrow> exn + (pystr \<rightharpoonup> pystr \<times> pystr)" where
  "read_excel_mapping df =
     (case resolve_mapping_cols df of
        Inl e \<Rightarrow> Inl e
      | Inr cols \<Rightarrow> Inr (build_mapping cols (rows df) Map.empty))"

fun annotate_ids :: "nat \<Rightarrow> pystr set \<Rightarrow> cell list list \<Rightarrow> pystr option list" where
  \<comment> \<open>the second pass of match_pdfs.py: the mark written into each row, \<open>None\<close> for a
      row that is passed over\<close>
  "annotate_ids id_col pdf_id_numbers [] = []"
| "annotate_ids id_col pdf_id_numbers (row # others) =
     (let row_id = strip (cell_str (cell_at row id_col))
      in if absent (cell_at row id_col) row_id then None # annotate_ids id_col pdf_id_numbers others
         else (if py_upper (normalize_numeric row_id) \<in> pdf_id_numbers
               then Some SUCCESS else Some FAILURE) # annotate_ids id_col pdf_id_numbers others)"


subsection \<open>The decimal text of a number determines it\<close>

definition ascii_digit :: "pychar \<Rightarrow> bool" where
  "ascii_digit c = (48 \<le> c \<and> c < 58)"

lemma ascii_digit_decimal: "ascii_digit c \<Longrightarrow> is_decimal c"
  by (simp add: ascii_digit_def is_decimal_def nd_bases_def)

lemma ascii_digit_val: "ascii_digit c \<Longrightarrow> digit_val c = c - 48"
  by (simp add: ascii_digit_def digit_val_def nd_bases_def)

lemma py_str_nat_digits: "list_all ascii_digit (py_str_nat n)"
proof (induction n rule: py_str_nat.induct)
  case (1 n)
  show ?case
  proof (cases "n < 10")
    case True
    then show ?thesis by (subst py_str_nat.simps) (simp add: ascii_digit_def)
  next
    case False
    have "n mod 10 < 10" by simp
    then have "ascii_digit (48 + n mod 10)" unfolding ascii_digit_def by linarith
    with False 1 show ?thesis by (subst py_str_nat.simps) simp
  qed
qed

lemma py_str_nat_nonempty: "py_str_nat n \<noteq> []"
  by (subst py_str_nat.simps) simp

lemma dec_value_snoc: "dec_value (ds @ [c]) = 10 * dec_value ds + digit_val c"
  by (simp add: dec_value_def)

lemma dec_value_py_str_nat: "dec_value (py_str_nat n) = n"
proof (induction n rule: py_str_nat.induct)
  case (1 n)
  show ?case
  proof (cases "n < 10")
    case True
    then have "ascii_digit (48 + n)" by (simp add: ascii_digit_def)
    from ascii_digit_val[OF this] True show ?thesis
      by (subst py_str_nat.simps) (simp add: dec_value_def)
  next
    case False
    have "n mod 10 < 10" by simp
    then have "ascii_digit (48 + n mod 10)" unfolding ascii_digit_def by linarith
    from ascii_digit_val[OF this] False 1 show ?thesis
      by (subst py_str_nat.simps) (simp add: dec_value_snoc)
  qed
qed

lemma py_str_nat_inj: "py_str_nat m = py_str_nat n \<Longrightarrow> m = n"
  by (metis dec_value_py_str_nat)


section \<open>Files\<close>

text \<open>
  A path is the list of its components and the file system is a finite table from the
  paths of its regular files to their contents.  The primitives of \<open>pathlib\<close> and
  \<open>shutil\<close> return the new file system or the exception they raise.
\<close>

type_synonym path = "pystr list"

datatype content = Blob nat | Workbook dataframe

type_synonym fs = "(path \<times> content) list"

definition path_exists :: "fs \<Rightarrow> path \<Rightarrow> bool" where
  "path_exists fs p = (map_of fs p \<noteq> None)"

definition utf8_bytes :: "pychar \<Rightarrow> nat" where
  \<comment> \<open>the number of bytes of a code point in the UTF-8 name handed to the system\<close>
  "utf8_bytes c = (if c < 128 then 1 else if c < 2048 then 2 else if c < 65536 then 3 else 4)"

definition utf8_length :: "pystr \<Rightarrow> nat" where
  "utf8_length s = sum_list (map utf8_bytes s)"

definition NAME_MAX :: nat where
  \<comment> \<open>the longest file name, in bytes, that the file systems of Linux take\<close>
  "NAME_MAX = 255"

definition stat_exists :: "fs \<Rightarrow> path \<Rightarrow> exn + bool" where
  \<comment> \<open>\<open>p.exists()\<close> as \<open>pathlib\<close> has it: \<open>os.stat\<close> fails with ENAMETOOLONG on a
      component of more than \<open>NAME_MAX\<close> bytes, and \<open>exists\<close> answers \<open>False\<close> only for
      ENOENT, ENOTDIR, EBADF and ELOOP: every other \<open>OSError\<close> is raised again\<close>
  "stat_exists fs p =
     (if list_ex (\<lambda>c. NAME_MAX < utf8_length c) p then Inl OSError
      else Inr (path_exists fs p))"

definition name_of :: "path \<Rightarrow> pystr" where
  \<comment> \<open>\<open>p.name\<close>\<close>
  "name_of p = (if p = [] then [] else last p)"

definition suffix_of :: "pystr \<Rightarrow> pystr" where
  \<comment> \<open>\<open>p.suffix\<close> from the name: the text from the last dot on, unless that dot opens
      or closes the name\<close>
  "suffix_of name =
     (let t = rev (takeWhile (\<lambda>c. c \<noteq> 46) (rev name))
      in if 46 \<in> set name \<and> t \<noteq> [] \<and> length t + 1 < length name then 46 # t else [])"

definition stem_of :: "pystr \<Rightarrow> pystr" where
  \<comment> \<open>\<open>p.stem\<close>\<close>
  "stem_of name = take (length name - length (suffix_of name)) name"

definition with_suffix :: "path \<Rightarrow> pystr \<Rightarrow> exn + path" where
  \<comment> \<open>\<open>p.with_suffix(sfx)\<close> for a suffix that starts with a dot; a path without a name
      raises ValueError\<close>
  "with_suffix p sfx =
     (if name_of p = [] then Inl ValueError
      else Inr (butlast p @ [stem_of (name_of p) @ sfx]))"

definition unlink :: "fs \<Rightarrow> path \<Rightarrow> exn + fs" where
  "unlink fs p = (if path_exists fs p then Inr (AList.delete p fs) else Inl FileNotFoundError)"

definition path_rename :: "fs \<Rightarrow> path \<Rightarrow> path \<Rightarrow> exn + fs" where
  \<comment> \<open>\<open>src.rename(dst)\<close>; \<open>shutil.move\<close> of a file does the same\<close>
  "path_rename fs src dst =
     (case map_of fs src of
        None \<Rightarrow> Inl FileNotFoundError
      | Some c \<Rightarrow> Inr (if src = dst then fs else AList.update dst c (AList.delete src fs)))"

definition copy2 :: "fs \<Rightarrow> path \<Rightarrow> path \<Rightarrow> exn + fs" where
  \<comment> \<open>\<open>shutil.copy2(src, dst)\<close>\<close>
  "copy2 fs src dst =
     (case map_of fs src of
        None \<Rightarrow> Inl FileNotFoundError
      | Some c \<Rightarrow> if src = dst then Inl SameFileError else Inr (AList.update dst c fs))"

definition to_excel :: "fs \<Rightarrow> dataframe \<Rightarrow> path \<Rightarrow> exn + fs" where
  \<comment> \<open>\<open>df.to_excel(p, index=False, engine="openpyxl")\<close>\<close>
  "to_excel fs df p = Inr (AList.update p (Workbook df) fs)"

section \<open>Collision-free destination (match_pdfs.py, match_pdfs_by_name.py)\<close>

definition suffixed :: "path \<Rightarrow> pystr \<Rightarrow> pystr \<Rightarrow> nat \<Rightarrow> path" where
  \<comment> \<open>\<open>output_dir / f"{base_name}_{counter}{ext}"\<close>\<close>
  "suffixed output_dir base_name ext counter =
     output_dir @ [base_name @ [95] @ py_str_nat counter @ ext]"

lemma suffixed_inj: "suffixed output_dir base_name ext j = suffixed output_dir base_name ext k \<Longrightarrow> j = k"
  by (simp add: suffixed_def py_str_nat_inj)

lemma finite_taken_suffixes:
  "finite {k. counter \<le> k \<and> path_exists fs (suffixed output_dir base_name ext k)}"
proof -
  have inj: "inj (suffixed output_dir base_name ext)"
    by (rule injI) (rule suffixed_inj)
  have "finite (suffixed output_dir base_name ext -` (fst ` set fs))"
    using inj by (intro finite_vimageI) simp_all
  moreover have "{k. counter \<le> k \<and> path_exists fs (suffixed output_dir base_name ext k)}
                   \<subseteq> suffixed output_dir base_name ext -` (fst ` set fs)"
    by (auto simp: path_exists_def dom_map_of_conv_image_fst[symmetric])
  ultimately show ?thesis by (rule rev_finite_subset)
qed

text \<open>
  The loop \<open>while dest_path.exists(): ...\<close> on its two variables \<open>dest_path\<close> and
  \<open>counter\<close>.  It ends because the file system holds finitely many files and the
  candidate names differ from one another.
\<close>

function free_dest :: "fs \<Rightarrow> path \<Rightarrow> pystr \<Rightarrow> pystr \<Rightarrow> path \<Rightarrow> nat \<Rightarrow> path \<times> nat" where
  "free_dest fs output_dir base_name ext dest_path counter =
     (if path_exists fs dest_path
      then free_dest fs output_dir base_name ext (suffixed output_dir base_name ext counter)
             (counter + 1)
      else (dest_path, counter))"
  by pat_completeness auto
termination
proof (relation "measure (\<lambda>(fs, output_dir, base_name, ext, dest_path, counter).
          (if path_exists fs dest_path then 1 else 0)
          + card {k. counter \<le> k \<and> path_exists fs (suffixed output_dir base_name ext k)})",
       goal_cases)
  case 1
  show ?case by simp
next
  case (2 fs output_dir base_name ext dest_path counter)
  let ?A = "{k. counter \<le> k \<and> path_exists fs (suffixed output_dir base_name ext k)}"
  let ?B = "{k. counter + 1 \<le> k \<and> path_exists fs (suffixed output_dir base_name ext k)}"
  have fin: "finite ?B" by (rule finite_taken_suffixes)
  show ?case
  proof (cases "path_exists fs (suffixed output_dir base_name ext counter)")
    case True
    have "?A = insert counter ?B" using True by (auto simp: Suc_le_eq order_le_less)
    moreover have "counter \<notin> ?B" by simp
    ultimately have "card ?A = Suc (card ?B)" using fin by simp
    with 2 True show ?thesis by simp
  next
    case False
    have "?A = ?B" using False by (auto simp: Suc_le_eq order_le_less)
    with 2 False show ?thesis by simp
  qed
qed

declare free_dest.simps [simp del]

definition collision_free_dest :: "fs \<Rightarrow> path \<Rightarrow> path \<Rightarrow> path" where
  "collision_free_dest fs output_dir pdf_file =
     (let dest_path = output_dir @ [name_of pdf_file]
      in if path_exists fs dest_path
         then fst (free_dest fs output_dir (stem_of (name_of pdf_file))
                     (suffix_of (name_of pdf_file)) dest_path 1)
         else dest_path)"

section \<open>The document loops\<close>

text \<open>
  Each loop runs over the list \<open>pdf_files\<close> that \<open>glob\<close> returned before the loop
  started.  The primitive that copies, moves or renames is a parameter: it may raise
  for reasons outside the file table (permissions, a full disk), and the loop catches
  whatever it raises.  A primitive that raises leaves the file table as it was.

  In match_pdfs.py and match_pdfs_by_name.py the search for the destination name stands
  inside the \<open>try\<close> together with the primitive, so an exception of one of its
  \<open>exists\<close> calls is counted like one of the primitive; there the model keeps the
  table lookup \<open>path_exists\<close> and lets the primitive raise.  In main.py the call
  \<open>new_path.exists()\<close> stands before the \<open>try\<close>: its exception leaves the loop and
  the function, and the model has it as \<open>stat_exists\<close>.
\<close>

record counts =
  matched_count :: nat
  unmatched_count :: nat
  error_count :: nat

record rename_counts =
  success_count :: nat
  failed_count :: nat
  skipped_count :: nat

definition copy_step :: "(fs \<Rightarrow> path \<Rightarrow> path \<Rightarrow> exn + fs) \<Rightarrow> pystr set \<Rightarrow> path
                          \<Rightarrow> counts \<times> fs \<Rightarrow> path \<Rightarrow> counts \<times> fs" where
  \<comment> \<open>one round of the loop of \<open>match_and_copy_pdfs\<close> in match_pdfs.py\<close>
  "copy_step copy excel_id_numbers output_dir st pdf_file =
     (case st of (n, fs) \<Rightarrow>
        (case extract_name_and_id_from_filename (name_of pdf_file) of
           None \<Rightarrow> (n\<lparr>unmatched_count := unmatched_count n + 1\<rparr>, fs)
         | Some (name, id_number) \<Rightarrow>
             if id_number \<notin> excel_id_numbers
             then (n\<lparr>unmatched_count := unmatched_count n + 1\<rparr>, fs)
             else (case copy fs pdf_file (collision_free_dest fs output_dir pdf_file) of
                     Inr fs' \<Rightarrow> (n\<lparr>matched_count := matched_count n + 1\<rparr>, fs')
                   | Inl e \<Rightarrow> (n\<lparr>error_count := error_count n + 1\<rparr>, fs))))"

definition match_and_copy_loop :: "(fs \<Rightarrow> path \<Rightarrow> path \<Rightarrow> exn + fs) \<Rightarrow> pystr set \<Rightarrow> path
                          \<Rightarrow> fs \<Rightarrow> path list \<Rightarrow> counts \<times> fs" where
  "match_and_copy_loop copy excel_id_numbers output_dir fs pdf_files =
     foldl (copy_step copy excel_id_numbers output_dir)
       (\<lparr>matched_count = 0, unmatched_count = 0, error_count = 0\<rparr>, fs) pdf_files"

definition move_step :: "(fs \<Rightarrow> path \<Rightarrow> path \<Rightarrow> exn + fs) \<Rightarrow> pystr set \<Rightarrow> path
                          \<Rightarrow> counts \<times> fs \<Rightarrow> path \<Rightarrow> counts \<times> fs" where
  \<comment> \<open>one round of the loop of \<open>match_and_copy_pdfs\<close> in match_pdfs_by_name.py\<close>
  "move_step move excel_names output_dir st pdf_file =
     (case st of (n, fs) \<Rightarrow>
        (case extract_name_from_filename (name_of pdf_file) of
           None \<Rightarrow> (n\<lparr>unmatched_count := unmatched_count n + 1\<rparr>, fs)
         | Some name \<Rightarrow>
             if name \<notin> excel_names
             then (n\<lparr>unmatched_count := unmatched_count n + 1\<rparr>, fs)
             else (case move fs pdf_file (collision_free_dest fs output_dir pdf_file) of
                     Inr fs' \<Rightarrow> (n\<lparr>matched_count := matched_count n + 1\<rparr>, fs')
                   | Inl e \<Rightarrow> (n\<lparr>error_count := error_count n + 1\<rparr>, fs))))"

definition match_and_move_loop :: "(fs \<Rightarrow> path \<Rightarrow> path \<Rightarrow> exn + fs) \<Rightarrow> pystr set \<Rightarrow> path
                          \<Rightarrow> fs \<Rightarrow> path list \<Rightarrow> counts \<times> fs" where
  "match_and_move_loop move excel_names output_dir fs pdf_files =
     foldl (move_step move excel_names output_dir)
       (\<lparr>matched_count = 0, unmatched_count = 0, error_count = 0\<rparr>, fs) pdf_files"

definition blank :: "pystr \<Rightarrow> bool" where
  \<comment> \<open>\<open>pd.isna(t) or str(t).strip() == '' or str(t).strip() == 'nan'\<close> for a string \<open>t\<close>\<close>
  "blank t = (strip t = [] \<or> strip t = NAN)"

definition rename_step :: "(fs \<Rightarrow> path \<Rightarrow> path \<Rightarrow> exn + fs) \<Rightarrow> (pystr \<rightharpoonup> pystr \<times> pystr) \<Rightarrow> path
                          \<Rightarrow> rename_counts \<times> fs \<Rightarrow> path \<Rightarrow> exn + rename_counts \<times> fs" where
  \<comment> \<open>one round of the loop of \<open>rename_pdf_files\<close> in main.py; \<open>Inl\<close> is an exception
      that leaves the loop: \<open>new_path.exists()\<close> stands before the \<open>try\<close>, which
      encloses the rename alone\<close>
  "rename_step rename mapping target_dir st pdf_file =
     (case st of (n, fs) \<Rightarrow>
        (case extract_contract_number (name_of pdf_file) of
           None \<Rightarrow> Inr (n\<lparr>skipped_count := skipped_count n + 1\<rparr>, fs)
         | Some contract_num \<Rightarrow>
             (case mapping contract_num of
                None \<Rightarrow> Inr (n\<lparr>failed_count := failed_count n + 1\<rparr>, fs)
              | Some (name, id_num) \<Rightarrow>
                  if blank name then Inr (n\<lparr>failed_count := failed_count n + 1\<rparr>, fs)
                  else if blank id_num then Inr (n\<lparr>failed_count := failed_count n + 1\<rparr>, fs)
                  else (let new_path = target_dir @ [PREFIX @ name @ id_num @ DOT_PDF]
                        in case stat_exists fs new_path of
                             Inl e \<Rightarrow> Inl e
                           | Inr found \<Rightarrow>
                               if found \<and> new_path \<noteq> pdf_file
                               then Inr (n\<lparr>failed_count := failed_count n + 1\<rparr>, fs)
                               else (case rename fs pdf_file new_path of
                                       Inr fs' \<Rightarrow> Inr (n\<lparr>success_count := success_count n + 1\<rparr>, fs')
                                     | Inl e \<Rightarrow> Inr (n\<lparr>failed_count := failed_count n + 1\<rparr>, fs))))))"

fun rename_rounds :: "(fs \<Rightarrow> path \<Rightarrow> path \<Rightarrow> exn + fs) \<Rightarrow> (pystr \<rightharpoonup> pystr \<times> pystr) \<Rightarrow> path
                          \<Rightarrow> rename_counts \<times> fs \<Rightarrow> path list
                          \<Rightarrow> (rename_counts \<times> fs) \<times> exn option" where
  \<comment> \<open>the \<open>for\<close> loop of \<open>rename_pdf_files\<close>: the counters and the files when the loop
      ends, and the exception that ended it if one did\<close>
  "rename_rounds rename mapping target_dir st [] = (st, None)"
| "rename_rounds rename mapping target_dir st (pdf_file # pdf_files) =
     (case rename_step rename mapping target_dir st pdf_file of
        Inl e \<Rightarrow> (st, Some e)
      | Inr st' \<Rightarrow> rename_rounds rename mapping target_dir st' pdf_files)"

definition rename_loop :: "(fs \<Rightarrow> path \<Rightarrow> path \<Rightarrow> exn + fs) \<Rightarrow> (pystr \<rightharpoonup> pystr \<times> pystr) \<Rightarrow> path
                          \<Rightarrow> fs \<Rightarrow> path list \<Rightarrow> (rename_counts \<times> fs) \<times> exn option" where
  "rename_loop rename mapping target_dir fs pdf_files =
     rename_rounds rename mapping target_dir
       (\<lparr>success_count = 0, failed_count = 0, skipped_count = 0\<rparr>, fs) pdf_files"

fun pdf_id_numbers_of :: "path list \<Rightarrow> pystr set" where
  \<comment> \<open>the set \<open>pdf_id_numbers\<close> built after the loop of match_pdfs.py\<close>
  "pdf_id_numbers_of [] = {}"
| "pdf_id_numbers_of (pdf_file # others) =
     (case extract_name_and_id_from_filename (name_of pdf_file) of
        None \<Rightarrow> pdf_id_numbers_of others
      | Some (name, id_number) \<Rightarrow> insert (py_upper id_number) (pdf_id_numbers_of others))"

section \<open>Writing the annotated sheet back\<close>

definition DOT_XLS :: pystr where
  "DOT_XLS = [46, 120, 108, 115]"

definition DOT_XLSX :: pystr where
  "DOT_XLSX = [46, 120, 108, 115, 120]"

definition DOT_BACKUP :: pystr where
  "DOT_BACKUP = [46, 98, 97, 99, 107, 117, 112]"

definition remove_old_backup :: "fs \<Rightarrow> path \<Rightarrow> exn + fs" where
  \<comment> \<open>\<open>if backup_path.exists(): backup_path.unlink()\<close>\<close>
  "remove_old_backup fs backup_path =
     (if path_exists fs backup_path then unlink fs backup_path else Inr fs)"

text \<open>
  The block that saves the sheet, in both scripts.  The result lists the file systems
  the block goes through, one after each primitive that succeeded (the old backup
  removed, the backup made, the workbook written), and the exception that ended the
  block, if one did; the caller catches it and prints a warning.
\<close>

definition save_annotated :: "fs \<Rightarrow> path \<Rightarrow> dataframe \<Rightarrow> fs list \<times> exn option" where
  "save_annotated fs excel_path df_excel =
     (if py_lower (suffix_of (name_of excel_path)) = DOT_XLS
      then (case with_suffix excel_path (DOT_XLSX @ DOT_BACKUP) of
              Inl e \<Rightarrow> ([], Some e)
            | Inr backup_path \<Rightarrow>
                (case remove_old_backup fs backup_path of
                   Inl e \<Rightarrow> ([], Some e)
                 | Inr fs1 \<Rightarrow>
                     (case path_rename fs1 excel_path backup_path of
                        Inl e \<Rightarrow> ([fs1], Some e)
                      | Inr fs2 \<Rightarrow>
                          (case with_suffix excel_path DOT_XLSX of
                             Inl e \<Rightarrow> ([fs1, fs2], Some e)
                           | Inr new_excel_path \<Rightarrow>
                               (case to_excel fs2 df_excel new_excel_path of
                                  Inl e \<Rightarrow> ([fs1, fs2], Some e)
                                | Inr fs3 \<Rightarrow> ([fs1, fs2, fs3], None))))))
      else (case with_suffix excel_path DOT_BACKUP of
              Inl e \<Rightarrow> ([], Some e)
            | Inr backup_path \<Rightarrow>
                (case remove_old_backup fs backup_path of
                   Inl e \<Rightarrow> ([], Some e)
                 | Inr fs1 \<Rightarrow>
                     (case copy2 fs1 excel_path backup_path of
                        Inl e \<Rightarrow> ([fs1], Some e)
                      | Inr fs2 \<Rightarrow>
                          (case to_excel fs2 df_excel excel_path of
                             Inl e \<Rightarrow> ([fs1, fs2], Some e)
                           | Inr fs3 \<Rightarrow> ([fs1, fs2, fs3], None))))))"


section \<open>Auxiliary notions of the proofs\<close>

fun no_bol :: "item \<Rightarrow> bool" where
  \<comment> \<open>an item that does not look at the start-of-string flag\<close>
  "no_bol Bol = False"
| "no_bol (Opt xs) = list_all no_bol xs"
| "no_bol _ = True"

definition name_sel :: "pystr \<Rightarrow> bool" where
  \<comment> \<open>the second branch of the \<open>if/elif\<close> chain of main.py is reached and taken\<close>
  "name_sel s = (\<not> contract_hit s \<and> name_hit s)"

definition id_sel :: "pystr \<Rightarrow> bool" where
  \<comment> \<open>the third branch is reached and taken\<close>
  "id_sel s = (\<not> contract_hit s \<and> \<not> name_hit s \<and> id_hit s)"

fun last_hit :: "(pystr \<Rightarrow> bool) \<Rightarrow> pystr list \<Rightarrow> nat \<Rightarrow> nat option \<Rightarrow> nat option" where
  \<comment> \<open>one variable of the column loop of main.py\<close>
  "last_hit P [] i a = a"
| "last_hit P (col # cols) i a = last_hit P cols (Suc i) (if P (strip col) then Some i else a)"

fun lits_match :: "bool \<Rightarrow> pystr \<Rightarrow> pystr \<Rightarrow> bool" where
  \<comment> \<open>the input \<open>r\<close> begins with the literals \<open>p\<close>, compared as the flag says\<close>
  "lits_match ic [] r = True"
| "lits_match ic (a # p) [] = False"
| "lits_match ic (a # p) (x # r) = (lit_eq ic a x \<and> lits_match ic p r)"

definition caseless :: "pychar \<Rightarrow> bool" where
  \<comment> \<open>not a Basic Latin letter\<close>
  "caseless a = (\<not> (65 \<le> a \<and> a \<le> 90) \<and> \<not> (97 \<le> a \<and> a \<le> 122))"

definition id_token :: "pystr \<Rightarrow> bool" where
  \<comment> \<open>what \<open>\d{17}[\dX]\<close> matches under \<open>re.IGNORECASE\<close>: 17 decimal digits, then a
      digit, \<open>X\<close> or \<open>x\<close>\<close>
  "id_token t = (length t = 18 \<and> list_all is_decimal (take 17 t) \<and> in_cls True DigitOrX (t ! 17))"

definition id_tail :: "pystr \<Rightarrow> bool" where
  \<comment> \<open>the input begins with an ID token and the extension in any case\<close>
  "id_tail w = (id_token (take 18 w) \<and> lits_match True DOT_PDF (drop 18 w))"

definition tail_items :: "item list" where
  \<comment> \<open>\<open>name_id_pattern\<close> from the end of its first group on\<close>
  "tail_items = [GClose 1, GOpen 2, Rep 17 Digit, One DigitOrX, GClose 2] @ map Lit DOT_PDF"

definition total :: "counts \<Rightarrow> nat" where
  \<comment> \<open>the sum of the three counters of the copy and the move loop\<close>
  "total n = matched_count n + unmatched_count n + error_count n"

definition rename_total :: "rename_counts \<Rightarrow> nat" where
  \<comment> \<open>the sum of the three counters of the rename loop\<close>
  "rename_total n = success_count n + failed_count n + skipped_count n"

definition backup_path_of :: "path \<Rightarrow> path" where
  \<comment> \<open>\<open>backup_path\<close>: \<open>excel_path.with_suffix(".xlsx.backup")\<close> for an \<open>.xls\<close> sheet,
      \<open>excel_path.with_suffix(".backup")\<close> otherwise\<close>
  "backup_path_of p =
     butlast p @ [stem_of (name_of p)
        @ (if py_lower (suffix_of (name_of p)) = DOT_XLS then DOT_XLSX @ DOT_BACKUP else DOT_BACKUP)]"

definition new_excel_path_of :: "path \<Rightarrow> path" where
  \<comment> \<open>\<open>new_excel_path\<close>: \<open>excel_path.with_suffix(".xlsx")\<close>\<close>
  "new_excel_path_of p = butlast p @ [stem_of (name_of p) @ DOT_XLSX]"


section \<open>Facts about strings and the matcher\<close>

lemma startswith_append: "startswith (p @ r) p"
  by (simp add: startswith_def)

lemma startswith_split: "startswith s p \<Longrightarrow> s = p @ drop (length p) s"
  by (metis append_take_drop_id startswith_def)

lemma takeWhile_all_then_stop:
  "list_all P d \<Longrightarrow> \<not> P y \<Longrightarrow> takeWhile P (d @ y # t) = d"
  by (induction d) simp_all

lemma dropWhile_all_then_stop:
  "list_all P d \<Longrightarrow> \<not> P y \<Longrightarrow> dropWhile P (d @ y # t) = y # t"
  by (induction d) simp_all

lemma list_all_takeWhile: "list_all P (takeWhile P r)"
  by (induction r) simp_all

lemma take_takeWhile:
  "take (Suc (length r') - length (dropWhile P r')) (x # r') = x # takeWhile P r'"
proof -
  have "length r' = length (takeWhile P r') + length (dropWhile P r')"
    by (metis length_append takeWhile_dropWhile_id)
  then have "Suc (length r') - length (dropWhile P r') = Suc (length (takeWhile P r'))"
    by simp
  moreover have "take (length (takeWhile P r')) r' = takeWhile P r'"
    by (metis append_eq_conv_conj takeWhile_dropWhile_id)
  ultimately show ?thesis by simp
qed

lemma dot_not_decimal: "\<not> is_decimal 46"
  by (simp add: is_decimal_def nd_bases_def)

lemma rx_bol_irrelevant:
  "list_all no_bol items \<Longrightarrow> rx ic items b r os gs = rx ic items False r os gs"
proof (induction ic items b r os gs rule: rx.induct)
  case (6 ic c k b r os gs)
  then show ?case by (cases r) (simp_all add: rx.simps split: option.splits)
next
  case (7 ic c k b r os gs)
  then show ?case by (cases r) (simp_all add: rx.simps split: option.splits)
next
  case (10 ic xs k b r os gs)
  then show ?case by (simp add: rx.simps split: option.splits)
next
  case (12 ic n k b r os gs)
  then show ?case by (simp add: rx.simps split: option.splits)
qed (simp_all add: rx.simps)

lemma no_bol_lits: "list_all no_bol (map Lit q)"
  by (induction q) simp_all

lemma rx_lits:
  "p \<noteq> [] \<Longrightarrow> rx False (map Lit p @ k) b r os gs =
     (if startswith r p then rx False k False (drop (length p) r) os gs else None)"
proof (induction p arbitrary: r b)
  case Nil
  then show ?case by simp
next
  case (Cons a p)
  show ?case
  proof (cases p)
    case Nil
    then show ?thesis by (cases r) (auto simp: rx.simps lit_eq_def startswith_def)
  next
    case (Cons a' p')
    then have "p \<noteq> []" by simp
    from Cons.IH[OF this] show ?thesis
      by (cases r) (auto simp: rx.simps(2) lit_eq_def startswith_def)
  qed
qed

lemma rx_close_lits:
  assumes "map_of os n = Some r0" and "p \<noteq> []"
  shows "rx False (GClose n # map Lit p) b r os gs =
     (if startswith r p then Some ((n, take (length r0 - length r) r0) # gs, drop (length p) r)
      else None)"
  using assms rx_lits[OF assms(2), of "[]" b r os "(n, take (length r0 - length r) r0) # gs"]
  by (simp add: rx.simps(12) rx.simps(1))

lemma rx_star_digit_dot:
  assumes os: "map_of os n = Some r0"
  shows "rx False (Star Digit # GClose n # map Lit (46 # q)) b r os gs =
         rx False (GClose n # map Lit (46 # q)) False (dropWhile is_decimal r) os gs"
proof (induction r arbitrary: b)
  case Nil
  then show ?case
    using rx_bol_irrelevant[of "GClose n # map Lit (46 # q)" False b "[]" os gs]
    by (simp add: rx.simps(6) no_bol_lits)
next
  case (Cons x r)
  have irr: "rx False (GClose n # map Lit (46 # q)) b (x # r) os gs
               = rx False (GClose n # map Lit (46 # q)) False (x # r) os gs"
    using rx_bol_irrelevant[of "GClose n # map Lit (46 # q)" False b "x # r" os gs]
    by (simp add: no_bol_lits)
  show ?case
  proof (cases "is_decimal x")
    case True
    then have "x \<noteq> 46" using dot_not_decimal by auto
    then have fb: "rx False (GClose n # map Lit (46 # q)) False (x # r) os gs = None"
      using rx_close_lits[OF os, of "46 # q" False "x # r" gs] by (simp add: startswith_def)
    show ?thesis using True Cons.IH[of False] irr fb
      by (simp add: rx.simps(6) split: option.splits)
  next
    case False
    then show ?thesis using irr by (simp add: rx.simps(6))
  qed
qed


lemma rx_lits_ic:
  "p \<noteq> [] \<Longrightarrow> rx ic (map Lit p @ k) b r os gs =
     (if lits_match ic p r then rx ic k False (drop (length p) r) os gs else None)"
proof (induction p arbitrary: r b)
  case Nil
  then show ?case by simp
next
  case (Cons a p)
  show ?case
  proof (cases p)
    case Nil
    then show ?thesis by (cases r) (auto simp: rx.simps)
  next
    case (Cons a' p')
    then have "p \<noteq> []" by simp
    from Cons.IH[OF this] show ?thesis
      by (cases r) (auto simp: rx.simps(2))
  qed
qed

lemma lit_eq_caseless: "caseless a \<Longrightarrow> lit_eq ic a c = (c = a)"
  by (auto simp: lit_eq_def caseless_def ascii_lower_def split: if_splits)

lemma lits_match_caseless:
  "list_all caseless p \<Longrightarrow> lits_match ic p r = startswith r p"
proof (induction p arbitrary: r)
  case Nil
  then show ?case by (simp add: startswith_def)
next
  case (Cons a p)
  then show ?case by (cases r) (auto simp: lit_eq_caseless startswith_def)
qed

lemma prefix_caseless: "list_all caseless PREFIX"
  by (simp add: PREFIX_def caseless_def)

lemma lits_match_length: "lits_match ic p r \<Longrightarrow> length p \<le> length r"
  by (induction ic p r rule: lits_match.induct) simp_all

lemma lits_match_append: "lits_match ic p (e @ t) \<Longrightarrow> length e = length p \<Longrightarrow> lits_match ic p e"
  by (induction ic p e rule: lits_match.induct) auto

lemma lits_match_take: "lits_match ic p r \<Longrightarrow> lits_match ic p (take (length p) r)"
  by (induction ic p r rule: lits_match.induct) auto

lemma lits_match_extend: "lits_match ic p e \<Longrightarrow> lits_match ic p (e @ t)"
  by (induction ic p e rule: lits_match.induct) auto

lemma lits_match_dot_pdf:
  "length e = 4 \<Longrightarrow> lits_match True DOT_PDF e = (py_lower e = DOT_PDF)"
proof -
  assume "length e = 4"
  then obtain a b c d where e: "e = [a, b, c, d]"
    by (auto simp: length_Suc_conv eval_nat_numeral)
  show ?thesis unfolding e
    by (auto simp: DOT_PDF_def py_lower_def lit_eq_def ascii_lower_def split: if_splits)
qed

lemma rx_rep:
  "rx ic (Rep n c # k) b r os gs =
     (if n \<le> length r \<and> list_all (in_cls ic c) (take n r)
      then rx ic k (if n = 0 then b else False) (drop n r) os gs else None)"
proof (induction n arbitrary: r b)
  case 0
  then show ?case by (simp add: rx.simps(8))
next
  case (Suc n)
  show ?case
  proof (cases r)
    case Nil
    then show ?thesis by (simp add: rx.simps(9))
  next
    case (Cons x r')
    show ?thesis unfolding Cons
      by (simp add: rx.simps(9) Suc.IH[of False r'] rx_bol_irrelevant)
  qed
qed


lemma no_bol_tail: "list_all no_bol tail_items"
  by (simp add: tail_items_def no_bol_lits)

lemma id_token_length: "id_token t \<Longrightarrow> length t = 18"
  by (simp add: id_token_def)

lemma id_tail_length: "id_tail w \<Longrightarrow> 22 \<le> length w"
proof -
  assume a: "id_tail w"
  then have "length (take 18 w) = 18" by (simp add: id_tail_def id_token_def)
  then have 1: "18 \<le> length w" by simp
  from a have "length DOT_PDF \<le> length (drop 18 w)"
    unfolding id_tail_def by (blast intro: lits_match_length)
  with 1 show ?thesis by (simp add: DOT_PDF_def)
qed

lemma rx_tail:
  assumes os: "map_of os 1 = Some r1"
  shows "rx True tail_items b w os gs =
     (if id_tail w
      then Some ((2, take 18 w) # (1, take (length r1 - length w) r1) # gs, drop 22 w)
      else None)"
proof -
  have ne: "DOT_PDF \<noteq> []" by (simp add: DOT_PDF_def)
  have l4: "length DOT_PDF = 4" by (simp add: DOT_PDF_def)
  have dg: "in_cls True Digit = is_decimal" by (rule ext) simp
  let ?gs1 = "(1, take (length r1 - length w) r1) # gs"
  let ?os2 = "(2, w) # os"
  have step1: "rx True tail_items b w os gs =
      rx True (Rep 17 Digit # One DigitOrX # GClose 2 # map Lit DOT_PDF) b w ?os2 ?gs1"
    using os by (simp add: tail_items_def rx.simps(12) rx.simps(11))
  show ?thesis
  proof (cases "17 \<le> length w \<and> list_all is_decimal (take 17 w)")
    case False
    then have "\<not> id_tail w"
      by (auto simp: id_tail_def id_token_def min_def split: if_splits)
    with False show ?thesis unfolding step1 by (auto simp: rx_rep dg)
  next
    case True
    then have step2: "rx True tail_items b w os gs =
        rx True (One DigitOrX # GClose 2 # map Lit DOT_PDF) False (drop 17 w) ?os2 ?gs1"
      unfolding step1 by (simp add: rx_rep dg)
    show ?thesis
    proof (cases "drop 17 w")
      case Nil
      then have "length w \<le> 17" by simp
      then have "\<not> id_tail w" by (auto simp: id_tail_def id_token_def)
      with Nil show ?thesis unfolding step2 by (simp add: rx.simps(3))
    next
      case (Cons x w')
      then have w': "w' = drop 18 w"
        by (metis Suc_eq_plus1 add.commute drop_drop list.sel(3) drop_Suc numeral_plus_one
              semiring_norm(5) semiring_norm(8) tl_drop)
      from Cons have x: "x = w ! 17" and len: "17 < length w"
        by (metis Cons_nth_drop_Suc drop_eq_Nil2 leI list.distinct(1) list.sel(1) nth_via_drop,
            metis drop_eq_Nil2 leI list.distinct(1))
      have tk: "take 18 w ! 17 = w ! 17" by simp
      have tk17: "take 17 (take 18 w) = take 17 w" by (simp add: min_def)
      have l18: "length (take 18 w) = 18" using len by simp
      have idt: "id_token (take 18 w) = in_cls True DigitOrX x"
        using True len by (simp add: id_token_def tk tk17 x min_def del: in_cls.simps)
      have m2: "map_of ?os2 2 = Some w" by simp
      have cl: "rx True (GClose 2 # map Lit DOT_PDF) False w' ?os2 g =
          (if lits_match True DOT_PDF w'
           then Some ((2, take (length w - length w') w) # g, drop 4 w') else None)" for g
        using rx_lits_ic[OF ne, of True "[]" False w' ?os2 "(2, take (length w - length w') w) # g"]
        by (simp add: rx.simps(12) rx.simps(1) l4)
      have lw: "length w - length w' = 18" unfolding w' using len by simp
      have dd: "drop 4 w' = drop 22 w" unfolding w' by simp
      show ?thesis unfolding step2 Cons
        by (simp add: rx.simps(3) cl id_tail_def idt w'[symmetric] lw dd del: in_cls.simps)
    qed
  qed
qed


lemma star_lazy_sound:
  "rx ic (StarLazy c # K) b r os gs = Some res \<Longrightarrow> list_all no_bol K \<Longrightarrow>
     \<exists>u w. r = u @ w \<and> list_all (in_cls ic c) u \<and> rx ic K False w os gs = Some res"
proof (induction r arbitrary: b)
  case Nil
  then have "rx ic K b [] os gs = Some res"
    by (simp add: rx.simps(7) split: option.splits)
  then have "rx ic K False [] os gs = Some res"
    using rx_bol_irrelevant[OF Nil.prems(2), of ic b "[]" os gs] by simp
  then show ?case by (intro exI[of _ "[]"]) simp
next
  case (Cons x r)
  show ?case
  proof (cases "rx ic K b (x # r) os gs")
    case (Some res')
    with Cons.prems have "res' = res" by (simp add: rx.simps(7))
    with Some have "rx ic K False (x # r) os gs = Some res"
      using rx_bol_irrelevant[OF Cons.prems(2), of ic b "x # r" os gs] by simp
    then show ?thesis by (intro exI[of _ "[]"] exI[of _ "x # r"]) simp
  next
    case None
    with Cons.prems have x: "in_cls ic c x" and rec: "rx ic (StarLazy c # K) False r os gs = Some res"
      by (auto simp: rx.simps(7) split: if_splits)
    from Cons.IH[OF rec Cons.prems(2)] obtain u w where
      "r = u @ w" "list_all (in_cls ic c) u" "rx ic K False w os gs = Some res" by blast
    with x show ?thesis by (intro exI[of _ "x # u"] exI[of _ w]) simp
  qed
qed

lemma star_lazy_complete:
  "list_all no_bol K \<Longrightarrow> list_all (in_cls ic c) u \<Longrightarrow> rx ic K False w os gs \<noteq> None \<Longrightarrow>
     rx ic (StarLazy c # K) b (u @ w) os gs \<noteq> None"
proof (induction u arbitrary: b)
  case Nil
  then have "rx ic K b w os gs \<noteq> None"
    using rx_bol_irrelevant[OF Nil.prems(1), of ic b w os gs] by simp
  then show ?case by (auto simp: rx.simps(7) split: option.splits)
next
  case (Cons x u)
  from Cons.prems have x: "in_cls ic c x" and u: "list_all (in_cls ic c) u" by simp_all
  from Cons.IH[OF Cons.prems(1) u Cons.prems(3), of False] x show ?case
    by (auto simp: rx.simps(7) split: option.splits)
qed

lemma search_sound:
  "search_from ic pat b s = Some res \<Longrightarrow> \<exists>pre r b'. s = pre @ r \<and> rx ic pat b' r [] [] = Some res"
proof (induction s arbitrary: b)
  case Nil
  then show ?case by (intro exI[of _ "[]"]) auto
next
  case (Cons x s)
  show ?case
  proof (cases "rx ic pat b (x # s) [] []")
    case (Some res')
    with Cons.prems have "rx ic pat b (x # s) [] [] = Some res" by simp
    then show ?thesis by (intro exI[of _ "[]"] exI[of _ "x # s"] exI[of _ b]) simp
  next
    case None
    with Cons.prems have "search_from ic pat False s = Some res" by simp
    from Cons.IH[OF this] obtain pre r b' where "s = pre @ r" "rx ic pat b' r [] [] = Some res"
      by blast
    then show ?thesis by (intro exI[of _ "x # pre"] exI[of _ r] exI[of _ b']) simp
  qed
qed

lemma search_complete:
  "list_all no_bol pat \<Longrightarrow> rx ic pat False r [] [] \<noteq> None \<Longrightarrow>
     search_from ic pat b (pre @ r) \<noteq> None"
proof (induction pre arbitrary: b)
  case Nil
  then have "rx ic pat b r [] [] \<noteq> None"
    using rx_bol_irrelevant[OF Nil.prems(1), of ic b r "[]" "[]"] by simp
  then show ?case by (cases r) (auto split: option.splits)
next
  case (Cons x pre)
  from Cons.IH[OF Cons.prems, of False] show ?case by (auto split: option.splits)
qed

lemma name_id_pattern_split:
  "name_id_pattern = map Lit PREFIX @ (GOpen 1 # PlusLazy Dot # tail_items)"
  by (simp add: name_id_pattern_def tail_items_def)

lemma no_bol_name_id: "list_all no_bol name_id_pattern"
  by (simp add: name_id_pattern_split no_bol_tail no_bol_lits)

lemma id_tail_decompose:
  "id_tail w \<Longrightarrow> \<exists>tok ext. w = tok @ ext @ drop 22 w \<and> id_token tok \<and> py_lower ext = DOT_PDF
       \<and> tok = take 18 w"
proof -
  assume a: "id_tail w"
  have l4: "length DOT_PDF = 4" by (simp add: DOT_PDF_def)
  let ?tok = "take 18 w" and ?ext = "take 4 (drop 18 w)"
  from id_tail_length[OF a] have len: "22 \<le> length w" .
  have "drop 18 w = ?ext @ drop 4 (drop 18 w)" by (rule append_take_drop_id[symmetric])
  then have "drop 18 w = ?ext @ drop 22 w" by simp
  moreover have "w = ?tok @ drop 18 w" by simp
  ultimately have w: "w = ?tok @ ?ext @ drop 22 w" by metis
  have "lits_match True DOT_PDF ?ext"
    using a lits_match_take[of True DOT_PDF "drop 18 w"] by (simp add: id_tail_def l4)
  moreover have "length ?ext = 4" using len by simp
  ultimately have "py_lower ?ext = DOT_PDF" by (simp add: lits_match_dot_pdf)
  with a w show ?thesis unfolding id_tail_def by blast
qed

lemma id_tail_compose:
  "id_token tok \<Longrightarrow> py_lower ext = DOT_PDF \<Longrightarrow> id_tail (tok @ ext @ post)"
proof -
  assume t: "id_token tok" and e: "py_lower ext = DOT_PDF"
  from t have l: "length tok = 18" by (simp add: id_token_def)
  from e have "length (py_lower ext) = length DOT_PDF" by simp
  then have "length ext = 4" by (simp add: py_lower_def DOT_PDF_def)
  with e have "lits_match True DOT_PDF ext" by (simp add: lits_match_dot_pdf)
  then have "lits_match True DOT_PDF (ext @ post)" by (rule lits_match_extend)
  with t l show ?thesis by (simp add: id_tail_def)
qed


lemma dot_class: "list_all (in_cls ic Dot) u = (10 \<notin> set u)"
  by (induction u) auto

lemma rx_name_id_eval:
  "rx True name_id_pattern b r [] [] =
     (if startswith r PREFIX
      then (case drop (length PREFIX) r of
              [] \<Rightarrow> None
            | x # r2 \<Rightarrow> if x \<noteq> 10
                        then rx True (StarLazy Dot # tail_items) False r2 [(1, x # r2)] []
                        else None)
      else None)"
proof -
  have ne: "PREFIX \<noteq> []" by (simp add: PREFIX_def)
  show ?thesis
    unfolding name_id_pattern_split
    by (simp add: rx_lits_ic[OF ne] lits_match_caseless[OF prefix_caseless] rx.simps(11)
          rx.simps(5) split: list.splits)
qed

lemma rx_name_id_sound:
  assumes "rx True name_id_pattern b r [] [] = Some (gs, rest)"
  shows "\<exists>name tok ext. r = PREFIX @ name @ tok @ ext @ rest \<and> name \<noteq> [] \<and> 10 \<notin> set name
           \<and> id_token tok \<and> py_lower ext = DOT_PDF \<and> gs = [(2, tok), (1, name)]"
proof -
  from assms have sw: "startswith r PREFIX"
    by (simp add: rx_name_id_eval split: if_splits)
  from assms sw obtain x r2 where dr: "drop (length PREFIX) r = x # r2"
    by (auto simp: rx_name_id_eval split: list.splits)
  from assms sw dr have x: "x \<noteq> 10"
    and st: "rx True (StarLazy Dot # tail_items) False r2 [(1, x # r2)] [] = Some (gs, rest)"
    by (auto simp: rx_name_id_eval split: if_splits)
  from star_lazy_sound[OF st no_bol_tail] obtain u w where
    r2: "r2 = u @ w" and u: "list_all (in_cls True Dot) u"
    and tl: "rx True tail_items False w [(1, x # r2)] [] = Some (gs, rest)" by blast
  have m: "map_of [(1::nat, x # r2)] 1 = Some (x # r2)" by simp
  from tl rx_tail[OF m, of False w "[]"]
  have it: "id_tail w" and gs: "gs = [(2, take 18 w), (1, take (length (x # r2) - length w) (x # r2))]"
    and rest: "rest = drop 22 w"
    by (auto split: if_splits)
  from id_tail_decompose[OF it] obtain tok ext where
    w: "w = tok @ ext @ drop 22 w" and tok: "id_token tok" and ext: "py_lower ext = DOT_PDF"
    and tk: "tok = take 18 w" by blast
  have nm: "take (length (x # r2) - length w) (x # r2) = x # u" unfolding r2 by simp
  have "r = PREFIX @ x # r2" using startswith_split[OF sw] dr by simp
  also have "x # r2 = (x # u) @ w" using r2 by simp
  finally have "r = PREFIX @ (x # u) @ tok @ ext @ rest" using w rest by simp
  moreover have "10 \<notin> set (x # u)" using x u by (simp add: dot_class)
  ultimately show ?thesis using tok ext gs nm tk by blast
qed

lemma rx_name_id_complete:
  assumes "name \<noteq> []" "10 \<notin> set name" "id_token tok" "py_lower ext = DOT_PDF"
  shows "rx True name_id_pattern b (PREFIX @ name @ tok @ ext @ post) [] [] \<noteq> None"
proof -
  from assms(1) obtain x u where n: "name = x # u" by (cases name) auto
  with assms(2) have x: "x \<noteq> 10" and u: "list_all (in_cls True Dot) u"
    by (simp_all add: dot_class)
  let ?r2 = "u @ tok @ ext @ post"
  have m: "map_of [(1::nat, x # ?r2)] 1 = Some (x # ?r2)" by simp
  have "rx True tail_items False (tok @ ext @ post) [(1, x # ?r2)] [] \<noteq> None"
    using id_tail_compose[OF assms(3,4), of post] rx_tail[OF m, of False "tok @ ext @ post" "[]"]
    by simp
  from star_lazy_complete[OF no_bol_tail u this, of False]
  show ?thesis using x
    by (simp add: rx_name_id_eval startswith_append n)
qed


lemma py_replace_skip:
  "old \<noteq> [] \<Longrightarrow> hd old \<notin> set xs \<Longrightarrow> py_replace old new (xs @ ys) = xs @ py_replace old new ys"
proof (induction xs)
  case Nil
  then show ?case by simp
next
  case (Cons x xs)
  from Cons.prems obtain a old' where old: "old = a # old'" by (cases old) auto
  with Cons.prems have "a \<noteq> x" by auto
  then have "\<not> startswith (x # xs @ ys) old" by (auto simp: old startswith_def)
  with Cons show ?case by simp
qed

lemma py_replace_dot_pdf_end:
  "46 \<notin> set xs \<Longrightarrow> py_replace DOT_PDF [] (xs @ DOT_PDF) = xs"
proof -
  assume a: "46 \<notin> set xs"
  have ne: "DOT_PDF \<noteq> []" and hd: "hd DOT_PDF = 46" by (simp_all add: DOT_PDF_def)
  have "py_replace DOT_PDF [] DOT_PDF = []" by (simp add: DOT_PDF_def startswith_def)
  with py_replace_skip[OF ne, of xs "[]" DOT_PDF] a hd show ?thesis by simp
qed

lemma rx_id_pattern_nondigit:
  "\<not> is_decimal x \<Longrightarrow> rx True id_pattern False (x # r) [] [] = None"
  by (simp add: id_pattern_def rx_rep take_Cons')

lemma findall_skip:
  "list_all (\<lambda>c. \<not> is_decimal c) xs \<Longrightarrow>
     re_findall True id_pattern (xs @ ys) = re_findall True id_pattern ys"
proof (induction xs)
  case Nil
  then show ?case by simp
next
  case (Cons x xs)
  then have "\<not> is_decimal x" by simp
  from rx_id_pattern_nondigit[OF this] Cons show ?case
    by (subst re_findall.simps) simp
qed

lemma id_token_drop: "id_token tok \<Longrightarrow> drop 17 tok = [tok ! 17]"
proof -
  assume "id_token tok"
  then have l: "length tok = 18" by (simp add: id_token_def)
  have "tok ! 17 # drop (Suc 17) tok = drop 17 tok" using l by (intro Cons_nth_drop_Suc) simp
  moreover have "drop (Suc 17) tok = []" using l by simp
  ultimately show ?thesis by simp
qed

lemma id_token_split: "id_token tok \<Longrightarrow> tok = take 17 tok @ [tok ! 17]"
  using id_token_drop[of tok] append_take_drop_id[of 17 tok] by simp

lemma id_token_chars: "id_token tok \<Longrightarrow> list_all (in_cls True DigitOrX) tok"
proof -
  assume a: "id_token tok"
  then have "list_all (in_cls True DigitOrX) (take 17 tok)"
    by (auto simp: id_token_def list_all_iff)
  moreover from a have "in_cls True DigitOrX (tok ! 17)" by (simp add: id_token_def)
  ultimately have "list_all (in_cls True DigitOrX) (take 17 tok @ [tok ! 17])" by simp
  with id_token_split[OF a] show ?thesis by simp
qed

lemma rx_id_pattern_token:
  "id_token tok \<Longrightarrow> rx True id_pattern False tok [] [] = Some ([], [])"
proof -
  assume a: "id_token tok"
  then have l: "length tok = 18" by (simp add: id_token_def)
  have dg: "in_cls True Digit = is_decimal" by (rule ext) simp
  have d: "drop 17 tok = [tok ! 17]" using a by (rule id_token_drop)
  show ?thesis using a l
    by (simp add: id_pattern_def rx_rep dg d rx.simps(3) rx.simps(1) id_token_def del: in_cls.simps)
qed

lemma findall_token: "id_token tok \<Longrightarrow> re_findall True id_pattern tok = [tok]"
proof -
  assume a: "id_token tok"
  then have l: "length tok = 18" by (simp add: id_token_def)
  then have ne: "tok \<noteq> []" by auto
  have e: "re_findall True id_pattern [] = []"
    by (subst re_findall.simps) (simp add: id_pattern_def rx_rep)
  show ?thesis
    by (subst re_findall.simps) (simp add: rx_id_pattern_token[OF a] l ne e)
qed

lemma prefix_no_digit: "list_all (\<lambda>c. \<not> is_decimal c) PREFIX"
  by (simp add: PREFIX_def is_decimal_def nd_bases_def)

lemma prefix_no_dot: "46 \<notin> set PREFIX"
  by (simp add: PREFIX_def)

lemma token_no_dot: "id_token tok \<Longrightarrow> 46 \<notin> set tok"
proof -
  assume "id_token tok"
  from id_token_chars[OF this] show ?thesis
    using dot_not_decimal by (auto simp: list_all_iff)
qed

lemma primary_none_without_name:
  assumes "id_token tok"
  shows "primary_match (PREFIX @ tok @ DOT_PDF) = None"
proof (rule ccontr)
  assume "primary_match (PREFIX @ tok @ DOT_PDF) \<noteq> None"
  then obtain gs rest where "search_from True name_id_pattern True (PREFIX @ tok @ DOT_PDF) = Some (gs, rest)"
    by (auto simp: primary_match_def re_search_def)
  from search_sound[OF this] obtain pre r b where s: "PREFIX @ tok @ DOT_PDF = pre @ r"
    and r: "rx True name_id_pattern b r [] [] = Some (gs, rest)" by blast
  from rx_name_id_sound[OF r] obtain name tok' ext where
    r': "r = PREFIX @ name @ tok' @ ext @ rest" and n: "name \<noteq> []"
    and t: "id_token tok'" and e: "py_lower ext = DOT_PDF" by blast
  from e have "length (py_lower ext) = length DOT_PDF" by simp
  then have le: "length ext = length DOT_PDF" by (simp add: py_lower_def)
  from s r' have "length (PREFIX @ tok @ DOT_PDF) = length (pre @ PREFIX @ name @ tok' @ ext @ rest)"
    by simp
  moreover have "0 < length name" using n by simp
  ultimately show False using assms t le by (simp add: id_token_def)
qed

lemma extract_without_name:
  assumes "id_token tok"
  shows "extract_name_and_id_from_filename (PREFIX @ tok @ DOT_PDF) = Some ([], py_upper tok)"
proof -
  have l: "length tok = 18" using assms by (simp add: id_token_def)
  have nd: "46 \<notin> set (PREFIX @ tok)" using prefix_no_dot token_no_dot[OF assms] by simp
  have rp: "py_replace DOT_PDF [] (PREFIX @ tok @ DOT_PDF) = PREFIX @ tok"
    using py_replace_dot_pdf_end[OF nd] by simp
  have fa: "re_findall True id_pattern (PREFIX @ tok) = [tok]"
    using findall_skip[OF prefix_no_digit, of tok] findall_token[OF assms] by simp
  have ew: "endswith (py_upper tok) (py_upper tok)" by (simp add: endswith_def)
  show ?thesis
    by (simp add: extract_name_and_id_from_filename_def primary_none_without_name[OF assms]
          rp fa startswith_append ew l Let_def)
qed


lemmas grammar_b_eval = extract_name_and_id_from_filename_def primary_match_def re_search_def
  name_id_pattern_def id_pattern_def group_def PREFIX_def DOT_PDF_def lit_eq_def ascii_lower_def
  ascii_upper_def py_upper_def py_lower_def is_decimal_def nd_bases_def startswith_def
  endswith_def Let_def rx.simps(1-7) rx.simps(10-14) rx_rep re_findall.simps


section \<open>Grammar A\<close>

lemma contract_number_eval:
  "extract_contract_number s =
     (if startswith s PREFIX
      then (case drop (length PREFIX) s of [] \<Rightarrow> None
            | x # r' \<Rightarrow>
                if is_decimal x \<and> startswith (dropWhile is_decimal r') DOT_PDF
                then Some (x # takeWhile is_decimal r') else None)
      else None)"
proof -
  have ne: "PREFIX \<noteq> []" by (simp add: PREFIX_def)
  have dp: "DOT_PDF = 46 # [112, 100, 102]" by (simp add: DOT_PDF_def)
  have tl: "rx False (Plus Digit # GClose n # map Lit DOT_PDF) False r [(n, r)] [] =
        (case r of [] \<Rightarrow> None
            | x # r' \<Rightarrow>
                if is_decimal x \<and> startswith (dropWhile is_decimal r') DOT_PDF
                then Some ([(n, x # takeWhile is_decimal r')],
                           drop (length DOT_PDF) (dropWhile is_decimal r'))
                else None)" for r n
  proof (cases r)
    case Nil
    then show ?thesis by (simp add: rx.simps(4))
  next
    case (Cons x r')
    have m: "map_of [(n, x # r')] n = Some (x # r')" by simp
    show ?thesis unfolding Cons dp
      using rx_star_digit_dot[OF m, of "[112, 100, 102]" False r' "[]"]
            rx_close_lits[OF m, of "46 # [112, 100, 102]" False "dropWhile is_decimal r'" "[]"]
      by (simp add: rx.simps(4) take_takeWhile)
  qed
  show ?thesis
    unfolding extract_contract_number_def re_match_def contract_pattern_def
    using rx_lits[OF ne, of "[GOpen 1, Plus Digit, GClose 1] @ map Lit DOT_PDF" True s "[]" "[]"]
    by (simp add: rx.simps(11) tl group_def split: list.splits)
qed

text \<open>
  Claim C3, as the code has it.  \<open>re.match\<close> anchors the pattern at the start of the
  file name only: \<open>extract_contract_number\<close> returns the digits \<open>d\<close> exactly for the
  names that begin with the prefix literal, the non-empty run of decimal digits \<open>d\<close>
  and \<open>.pdf\<close>, whatever follows the extension; for every other name it returns
  \<open>None\<close>.  The function is total: it never raises.
\<close>

theorem extract_contract_number_shape:
  "extract_contract_number s = Some d \<longleftrightarrow>
     (\<exists>rest. s = PREFIX @ d @ DOT_PDF @ rest \<and> d \<noteq> [] \<and> list_all is_decimal d)"
proof
  assume a: "extract_contract_number s = Some d"
  from a have sw: "startswith s PREFIX"
    by (simp add: contract_number_eval split: if_splits)
  from a sw obtain x r' where dr: "drop (length PREFIX) s = x # r'"
    by (auto simp: contract_number_eval split: list.splits)
  from a sw dr have dx: "is_decimal x" and sp: "startswith (dropWhile is_decimal r') DOT_PDF"
    and d: "d = x # takeWhile is_decimal r'"
    by (auto simp: contract_number_eval split: if_splits)
  have "s = PREFIX @ x # r'" using startswith_split[OF sw] dr by simp
  also have "x # r' = d @ dropWhile is_decimal r'" using d by simp
  also have "dropWhile is_decimal r' = DOT_PDF @ drop (length DOT_PDF) (dropWhile is_decimal r')"
    using startswith_split[OF sp] .
  finally have "s = PREFIX @ d @ DOT_PDF @ drop (length DOT_PDF) (dropWhile is_decimal r')" .
  moreover have "d \<noteq> []" using d by simp
  moreover have "list_all is_decimal d" using d dx by (simp add: list_all_takeWhile)
  ultimately show "\<exists>rest. s = PREFIX @ d @ DOT_PDF @ rest \<and> d \<noteq> [] \<and> list_all is_decimal d"
    by blast
next
  assume "\<exists>rest. s = PREFIX @ d @ DOT_PDF @ rest \<and> d \<noteq> [] \<and> list_all is_decimal d"
  then obtain rest where s: "s = PREFIX @ d @ DOT_PDF @ rest" and ne: "d \<noteq> []"
    and al: "list_all is_decimal d" by blast
  from ne obtain x d' where d: "d = x # d'" by (cases d) auto
  have dp: "DOT_PDF @ rest = 46 # [112, 100, 102] @ rest" by (simp add: DOT_PDF_def)
  have tw: "takeWhile is_decimal (d' @ DOT_PDF @ rest) = d'"
    unfolding dp using al d dot_not_decimal by (simp add: takeWhile_all_then_stop)
  have dw: "dropWhile is_decimal (d' @ DOT_PDF @ rest) = DOT_PDF @ rest"
    unfolding dp using al d dot_not_decimal by (simp add: dropWhile_all_then_stop)
  show "extract_contract_number s = Some d"
    using al by (simp add: contract_number_eval s startswith_append d tw dw)
qed

theorem extract_contract_number_shape_witness:
  "extract_contract_number (PREFIX @ [49, 50, 51] @ DOT_PDF) = Some [49, 50, 51]"
proof -
  have "list_all is_decimal [49, 50, 51]" by (simp add: is_decimal_def nd_bases_def)
  then have "\<exists>rest. PREFIX @ [49, 50, 51] @ DOT_PDF = PREFIX @ [49, 50, 51] @ DOT_PDF @ rest
      \<and> [49, 50, 51] \<noteq> ([]::pystr) \<and> list_all is_decimal [49, 50, 51]" by simp
  then show ?thesis
    using extract_contract_number_shape[of "PREFIX @ [49, 50, 51] @ DOT_PDF" "[49, 50, 51]"]
    by blast
qed

text \<open>
  The claim as the specification words it fails: the name
  \<open>PREFIX 123.pdf.pdf\<close> has characters after the first \<open>.pdf\<close> and is accepted, with
  contract number \<open>123\<close>.
\<close>

theorem extract_contract_number_trailing:
  "extract_contract_number (PREFIX @ [49, 50, 51] @ DOT_PDF @ DOT_PDF) = Some [49, 50, 51]"
  by (simp add: extract_contract_number_def re_match_def contract_pattern_def group_def
        PREFIX_def DOT_PDF_def rx.simps lit_eq_def is_decimal_def nd_bases_def)


section \<open>Facts about paths\<close>

lemma stem_suffix: "stem_of name @ suffix_of name = name"
proof (cases "suffix_of name = []")
  case True
  then show ?thesis by (simp add: stem_of_def)
next
  case False
  let ?t = "takeWhile (\<lambda>c. c \<noteq> 46) (rev name)"
  from False have sfx: "suffix_of name = 46 # rev ?t" and dot: "46 \<in> set name"
    by (auto simp: suffix_of_def Let_def split: if_splits)
  from dot have "dropWhile (\<lambda>c. c \<noteq> 46) (rev name) \<noteq> []" by (simp add: dropWhile_eq_Nil_conv)
  then obtain y ys where dw: "dropWhile (\<lambda>c. c \<noteq> 46) (rev name) = y # ys"
    by (cases "dropWhile (\<lambda>c. c \<noteq> 46) (rev name)") auto
  have "\<not> (hd (dropWhile (\<lambda>c. c \<noteq> 46) (rev name)) \<noteq> 46)"
    using \<open>dropWhile (\<lambda>c. c \<noteq> 46) (rev name) \<noteq> []\<close> by (rule hd_dropWhile)
  with dw have y: "y = 46" by simp
  have "rev name = ?t @ 46 # ys" using dw y takeWhile_dropWhile_id[of "\<lambda>c. c \<noteq> 46" "rev name"] by simp
  then have "rev (rev name) = rev (?t @ 46 # ys)" by simp
  then have name: "name = rev ys @ 46 # rev ?t" by simp
  have "take (length name - length (46 # rev ?t)) name = rev ys"
    by (subst (1 2) name) simp
  then show ?thesis unfolding stem_of_def sfx using name by simp
qed

section \<open>Grammar C\<close>

lemmas grammar_c_eval = extract_name_from_filename_def try_pattern1_def try_pattern2_def
  try_pattern3_def pattern1_def pattern2_def pattern3_def paren_digits_def re_match_def
  group_def MARKER_def DOT_PDF_def rx.simps lit_eq_def is_decimal_def nd_bases_def
  strip_def is_space_def startswith_def

text \<open>
  Claim C7.  \<open>extract_name_from_filename\<close> tries its three patterns in the order one,
  two, three and returns the name of the first that gives one: a name from the first
  pattern is the result whatever the other two give; when the first gives none, a name
  from the second is the result whatever the third gives; the third decides only when
  both gave none.  On the file name \<open>MARKER-\<close>U+674E U+96F7\<open>(2).pdf\<close> the first
  pattern gives nothing, the second gives the two-character name and that is the result;
  the generic third pattern matches the same string too.  The order is visible on two
  further names.  On \<open>MARKER-\<close>U+674E U+96F7\<open>-MARKERx.pdf\<close> the first pattern gives
  nothing, the second gives U+674E U+96F7\<open>-MARKERx\<close>, the third would give
  \<open>MARKER\<close>, and the result is the second pattern's.  On
  \<open>MARKER-\<close>U+674E U+96F7\<open>-MARKER.pdf\<close> the three patterns give three different
  names and the result is the first pattern's.
\<close>

theorem grammar_c_first_success_wins:
  "(try_pattern1 s = Some n \<longrightarrow> extract_name_from_filename s = Some n)
   \<and> (try_pattern1 s = None \<and> try_pattern2 s = Some n \<longrightarrow> extract_name_from_filename s = Some n)
   \<and> (try_pattern1 s = None \<and> try_pattern2 s = None
        \<longrightarrow> extract_name_from_filename s = try_pattern3 s)
   \<and> try_pattern1 (MARKER @ [45, 26446, 38647, 40, 50, 41] @ DOT_PDF) = None
   \<and> try_pattern2 (MARKER @ [45, 26446, 38647, 40, 50, 41] @ DOT_PDF) = Some [26446, 38647]
   \<and> try_pattern3 (MARKER @ [45, 26446, 38647, 40, 50, 41] @ DOT_PDF) = Some [26446, 38647]
   \<and> re_match False pattern3 (MARKER @ [45, 26446, 38647, 40, 50, 41] @ DOT_PDF)
        = Some ([(2, [26446, 38647]), (1, MARKER)], [])
   \<and> extract_name_from_filename (MARKER @ [45, 26446, 38647, 40, 50, 41] @ DOT_PDF)
        = Some [26446, 38647]
   \<and> try_pattern1 (MARKER @ [45, 26446, 38647, 45] @ MARKER @ [120] @ DOT_PDF) = None
   \<and> try_pattern2 (MARKER @ [45, 26446, 38647, 45] @ MARKER @ [120] @ DOT_PDF)
        = Some ([26446, 38647, 45] @ MARKER @ [120])
   \<and> try_pattern3 (MARKER @ [45, 26446, 38647, 45] @ MARKER @ [120] @ DOT_PDF) = Some MARKER
   \<and> extract_name_from_filename (MARKER @ [45, 26446, 38647, 45] @ MARKER @ [120] @ DOT_PDF)
        = Some ([26446, 38647, 45] @ MARKER @ [120])
   \<and> try_pattern1 (MARKER @ [45, 26446, 38647, 45] @ MARKER @ DOT_PDF)
        = Some (MARKER @ [45, 26446, 38647])
   \<and> try_pattern2 (MARKER @ [45, 26446, 38647, 45] @ MARKER @ DOT_PDF)
        = Some ([26446, 38647, 45] @ MARKER)
   \<and> try_pattern3 (MARKER @ [45, 26446, 38647, 45] @ MARKER @ DOT_PDF) = Some MARKER
   \<and> extract_name_from_filename (MARKER @ [45, 26446, 38647, 45] @ MARKER @ DOT_PDF)
        = Some (MARKER @ [45, 26446, 38647])"
proof -
  have order: "(try_pattern1 s = Some n \<longrightarrow> extract_name_from_filename s = Some n)
   \<and> (try_pattern1 s = None \<and> try_pattern2 s = Some n \<longrightarrow> extract_name_from_filename s = Some n)
   \<and> (try_pattern1 s = None \<and> try_pattern2 s = None
        \<longrightarrow> extract_name_from_filename s = try_pattern3 s)"
    by (simp add: extract_name_from_filename_def)
  have a: "try_pattern1 (MARKER @ [45, 26446, 38647, 40, 50, 41] @ DOT_PDF) = None
   \<and> try_pattern2 (MARKER @ [45, 26446, 38647, 40, 50, 41] @ DOT_PDF) = Some [26446, 38647]
   \<and> try_pattern3 (MARKER @ [45, 26446, 38647, 40, 50, 41] @ DOT_PDF) = Some [26446, 38647]
   \<and> re_match False pattern3 (MARKER @ [45, 26446, 38647, 40, 50, 41] @ DOT_PDF)
        = Some ([(2, [26446, 38647]), (1, MARKER)], [])
   \<and> extract_name_from_filename (MARKER @ [45, 26446, 38647, 40, 50, 41] @ DOT_PDF)
        = Some [26446, 38647]"
    by (simp add: grammar_c_eval)
  have b: "try_pattern1 (MARKER @ [45, 26446, 38647, 45] @ MARKER @ [120] @ DOT_PDF) = None
   \<and> try_pattern2 (MARKER @ [45, 26446, 38647, 45] @ MARKER @ [120] @ DOT_PDF)
        = Some ([26446, 38647, 45] @ MARKER @ [120])
   \<and> try_pattern3 (MARKER @ [45, 26446, 38647, 45] @ MARKER @ [120] @ DOT_PDF) = Some MARKER
   \<and> extract_name_from_filename (MARKER @ [45, 26446, 38647, 45] @ MARKER @ [120] @ DOT_PDF)
        = Some ([26446, 38647, 45] @ MARKER @ [120])"
    by (simp add: grammar_c_eval)
  have c: "try_pattern1 (MARKER @ [45, 26446, 38647, 45] @ MARKER @ DOT_PDF)
        = Some (MARKER @ [45, 26446, 38647])
   \<and> try_pattern2 (MARKER @ [45, 26446, 38647, 45] @ MARKER @ DOT_PDF)
        = Some ([26446, 38647, 45] @ MARKER)
   \<and> try_pattern3 (MARKER @ [45, 26446, 38647, 45] @ MARKER @ DOT_PDF) = Some MARKER
   \<and> extract_name_from_filename (MARKER @ [45, 26446, 38647, 45] @ MARKER @ DOT_PDF)
        = Some (MARKER @ [45, 26446, 38647])"
    by (simp add: grammar_c_eval)
  from order a b c show ?thesis by (elim conjE, intro conjI) assumption+
qed

theorem grammar_c_first_success_wins_witness:
  "try_pattern1 (MARKER @ [45, 26446, 38647, 45] @ MARKER @ [120] @ DOT_PDF) = None
   \<and> try_pattern2 (MARKER @ [45, 26446, 38647, 45] @ MARKER @ [120] @ DOT_PDF)
        = Some ([26446, 38647, 45] @ MARKER @ [120])
   \<and> extract_name_from_filename (MARKER @ [45, 26446, 38647, 45] @ MARKER @ [120] @ DOT_PDF)
        = Some ([26446, 38647, 45] @ MARKER @ [120])"
  using grammar_c_first_success_wins[of "MARKER @ [45, 26446, 38647, 45] @ MARKER @ [120] @ DOT_PDF"
      "[26446, 38647, 45] @ MARKER @ [120]"]
  by blast


section \<open>Column resolution\<close>

lemma first_col_Some:
  "first_col hit cols i = Some j \<Longrightarrow>
     \<exists>m. j = i + m \<and> m < length cols \<and> hit (strip (cols ! m)) \<and> (\<forall>k<m. \<not> hit (strip (cols ! k)))"
proof (induction cols arbitrary: i)
  case Nil
  then show ?case by simp
next
  case (Cons col cols)
  show ?case
  proof (cases "hit (strip col)")
    case True
    with Cons.prems have "j = i" by simp
    with True show ?thesis by (intro exI[of _ 0]) simp
  next
    case False
    with Cons.prems have "first_col hit cols (Suc i) = Some j" by simp
    from Cons.IH[OF this] obtain m where m: "j = Suc i + m" "m < length cols"
      "hit (strip (cols ! m))" "\<forall>k<m. \<not> hit (strip (cols ! k))" by blast
    have "\<forall>k<Suc m. \<not> hit (strip ((col # cols) ! k))"
      using False m(4) by (auto simp: nth_Cons split: nat.splits)
    with m show ?thesis by (intro exI[of _ "Suc m"]) simp
  qed
qed

lemma scan_cols_last_hit:
  "scan_cols cols i (c, n, d) =
     (last_hit contract_hit cols i c, last_hit name_sel cols i n, last_hit id_sel cols i d)"
  by (induction cols arbitrary: i c n d) (simp_all add: Let_def name_sel_def id_sel_def)

lemma last_hit_Some:
  "last_hit P cols i a = Some j \<Longrightarrow>
     (a = Some j \<and> (\<forall>k<length cols. \<not> P (strip (cols ! k))))
   \<or> (\<exists>m. j = i + m \<and> m < length cols \<and> P (strip (cols ! m))
          \<and> (\<forall>k. m < k \<and> k < length cols \<longrightarrow> \<not> P (strip (cols ! k))))"
proof (induction cols arbitrary: i a)
  case Nil
  then show ?case by simp
next
  case (Cons col cols)
  let ?a = "if P (strip col) then Some i else a"
  from Cons.prems have r: "last_hit P cols (Suc i) ?a = Some j" by simp
  from Cons.IH[OF r] show ?case
  proof
    assume a: "?a = Some j \<and> (\<forall>k<length cols. \<not> P (strip (cols ! k)))"
    show ?thesis
    proof (cases "P (strip col)")
      case True
      with a have "j = i" by simp
      with True a show ?thesis
        by (intro disjI2 exI[of _ 0]) (auto simp: nth_Cons split: nat.splits)
    next
      case False
      with a show ?thesis by (intro disjI1) (auto simp: nth_Cons split: nat.splits)
    qed
  next
    assume "\<exists>m. j = Suc i + m \<and> m < length cols \<and> P (strip (cols ! m))
          \<and> (\<forall>k. m < k \<and> k < length cols \<longrightarrow> \<not> P (strip (cols ! k)))"
    then obtain m where m: "j = Suc i + m" "m < length cols" "P (strip (cols ! m))"
       "\<forall>k. m < k \<and> k < length cols \<longrightarrow> \<not> P (strip (cols ! k))" by blast
    have "\<forall>k. Suc m < k \<and> k < length (col # cols) \<longrightarrow> \<not> P (strip ((col # cols) ! k))"
      using m(4) by (auto simp: nth_Cons split: nat.splits)
    with m show ?thesis by (intro disjI2 exI[of _ "Suc m"]) simp
  qed
qed

lemma last_hit_from_None:
  assumes "last_hit P cols 0 None = Some j"
  shows "j < length cols \<and> P (strip (cols ! j))
          \<and> (\<forall>k. j < k \<and> k < length cols \<longrightarrow> \<not> P (strip (cols ! k)))"
  using last_hit_Some[OF assms] by auto

lemma first_col_complete:
  "m < length cols \<Longrightarrow> hit (strip (cols ! m)) \<Longrightarrow> \<forall>k<m. \<not> hit (strip (cols ! k))
     \<Longrightarrow> first_col hit cols i = Some (i + m)"
proof (induction cols arbitrary: i m)
  case Nil
  then show ?case by simp
next
  case (Cons col cols)
  show ?case
  proof (cases m)
    case 0
    with Cons.prems show ?thesis by simp
  next
    case (Suc m')
    from Cons.prems(3) Suc have "\<not> hit (strip ((col # cols) ! 0))" by blast
    then have h: "\<not> hit (strip col)" by simp
    have "\<forall>k<m'. \<not> hit (strip (cols ! k))"
    proof (intro allI impI)
      fix k assume "k < m'"
      then have "Suc k < m" using Suc by simp
      with Cons.prems(3) have "\<not> hit (strip ((col # cols) ! Suc k))" by blast
      then show "\<not> hit (strip (cols ! k))" by simp
    qed
    moreover from Cons.prems(1,2) Suc have "m' < length cols" "hit (strip (cols ! m'))" by simp_all
    ultimately have "first_col hit cols (Suc i) = Some (Suc i + m')" by (rule Cons.IH[rotated 2])
    with h Suc show ?thesis by simp
  qed
qed

lemma first_col_None:
  "first_col hit cols i = None \<longleftrightarrow> (\<forall>c\<in>set cols. \<not> hit (strip c))"
  by (induction cols arbitrary: i) simp_all

lemma first_col_iff:
  "first_col hit cols 0 = Some j \<longleftrightarrow>
     j < length cols \<and> hit (strip (cols ! j)) \<and> (\<forall>k<j. \<not> hit (strip (cols ! k)))"
proof
  assume "first_col hit cols 0 = Some j"
  from first_col_Some[OF this]
  show "j < length cols \<and> hit (strip (cols ! j)) \<and> (\<forall>k<j. \<not> hit (strip (cols ! k)))" by auto
next
  assume "j < length cols \<and> hit (strip (cols ! j)) \<and> (\<forall>k<j. \<not> hit (strip (cols ! k)))"
  then have "first_col hit cols 0 = Some (0 + j)" by (intro first_col_complete) simp_all
  then show "first_col hit cols 0 = Some j" by simp
qed

lemma last_hit_no_hits:
  "\<forall>c\<in>set cols. \<not> P (strip c) \<Longrightarrow> last_hit P cols i a = a"
  by (induction cols arbitrary: i a) simp_all

lemma last_hit_complete:
  "m < length cols \<Longrightarrow> P (strip (cols ! m))
     \<Longrightarrow> \<forall>k. m < k \<and> k < length cols \<longrightarrow> \<not> P (strip (cols ! k))
     \<Longrightarrow> last_hit P cols i a = Some (i + m)"
proof (induction cols arbitrary: i m a)
  case Nil
  then show ?case by simp
next
  case (Cons col cols)
  show ?case
  proof (cases m)
    case 0
    have "\<forall>c\<in>set cols. \<not> P (strip c)"
    proof
      fix c assume "c \<in> set cols"
      then obtain k where k: "k < length cols" "cols ! k = c" by (auto simp: in_set_conv_nth)
      then have "m < Suc k \<and> Suc k < length (col # cols)" using 0 by simp
      with Cons.prems(3) have "\<not> P (strip ((col # cols) ! Suc k))" by blast
      with k show "\<not> P (strip c)" by simp
    qed
    then have "last_hit P cols (Suc i) (Some i) = Some i" by (rule last_hit_no_hits)
    with Cons.prems(2) 0 show ?thesis by simp
  next
    case (Suc m')
    have "\<forall>k. m' < k \<and> k < length cols \<longrightarrow> \<not> P (strip (cols ! k))"
    proof (intro allI impI)
      fix k assume "m' < k \<and> k < length cols"
      then have "m < Suc k \<and> Suc k < length (col # cols)" using Suc by simp
      with Cons.prems(3) have "\<not> P (strip ((col # cols) ! Suc k))" by blast
      then show "\<not> P (strip (cols ! k))" by simp
    qed
    moreover from Cons.prems(1,2) Suc have "m' < length cols" "P (strip (cols ! m'))" by simp_all
    ultimately have "last_hit P cols (Suc i) (if P (strip col) then Some i else a) = Some (Suc i + m')"
      by (rule Cons.IH[rotated 2])
    with Suc show ?thesis by simp
  qed
qed

lemma last_hit_iff:
  "last_hit P cols 0 None = Some j \<longleftrightarrow>
     j < length cols \<and> P (strip (cols ! j))
     \<and> (\<forall>k. j < k \<and> k < length cols \<longrightarrow> \<not> P (strip (cols ! k)))"
proof
  assume "last_hit P cols 0 None = Some j"
  from last_hit_from_None[OF this]
  show "j < length cols \<and> P (strip (cols ! j))
     \<and> (\<forall>k. j < k \<and> k < length cols \<longrightarrow> \<not> P (strip (cols ! k)))" .
next
  assume "j < length cols \<and> P (strip (cols ! j))
     \<and> (\<forall>k. j < k \<and> k < length cols \<longrightarrow> \<not> P (strip (cols ! k)))"
  then have "last_hit P cols 0 None = Some (0 + j)" by (intro last_hit_complete) simp_all
  then show "last_hit P cols 0 None = Some j" by simp
qed

lemma last_hit_None:
  "last_hit P cols i None = None \<longleftrightarrow> (\<forall>c\<in>set cols. \<not> P (strip c))"
proof
  assume n: "last_hit P cols i None = None"
  show "\<forall>c\<in>set cols. \<not> P (strip c)"
  proof (rule ccontr)
    assume "\<not> (\<forall>c\<in>set cols. \<not> P (strip c))"
    then obtain k where k: "k < length cols" "P (strip (cols ! k))"
      by (auto simp: in_set_conv_nth)
    define S where "S = {k. k < length cols \<and> P (strip (cols ! k))}"
    have "finite S" "S \<noteq> {}" using k by (auto simp: S_def)
    then have m: "Max S \<in> S" by (rule Max_in)
    have g: "\<forall>k. Max S < k \<and> k < length cols \<longrightarrow> \<not> P (strip (cols ! k))"
    proof (intro allI impI notI)
      fix k assume "Max S < k \<and> k < length cols" and "P (strip (cols ! k))"
      then have "k \<in> S" by (simp add: S_def)
      with \<open>finite S\<close> have "k \<le> Max S" by (rule Max_ge)
      with \<open>Max S < k \<and> k < length cols\<close> show False by simp
    qed
    from m have "Max S < length cols" "P (strip (cols ! Max S))" by (simp_all add: S_def)
    with g have "Max S < length cols" "P (strip (cols ! Max S))"
      "\<forall>k. Max S < k \<and> k < length cols \<longrightarrow> \<not> P (strip (cols ! k))"
      by simp_all
    then have "last_hit P cols i None = Some (i + Max S)" by (rule last_hit_complete)
    with n show False by simp
  qed
next
  assume "\<forall>c\<in>set cols. \<not> P (strip c)"
  then show "last_hit P cols i None = None" by (rule last_hit_no_hits)
qed

lemma resolve_id_col_Inr: "resolve_id_col df = Inr j \<longleftrightarrow> first_col id_hit (columns df) 0 = Some j"
  by (simp add: resolve_id_col_def split: option.splits)

lemma resolve_id_col_Inl:
  "resolve_id_col df = Inl e \<longleftrightarrow> e = ValueError \<and> first_col id_hit (columns df) 0 = None"
  by (auto simp: resolve_id_col_def split: option.splits)

lemma resolve_name_col_Inr:
  "resolve_name_col df = Inr j \<longleftrightarrow> first_col name_hit (columns df) 0 = Some j"
  by (simp add: resolve_name_col_def split: option.splits)

lemma resolve_name_col_Inl:
  "resolve_name_col df = Inl e \<longleftrightarrow> e = ValueError \<and> first_col name_hit (columns df) 0 = None"
  by (auto simp: resolve_name_col_def split: option.splits)

lemma resolve_mapping_cols_Inr:
  "resolve_mapping_cols df = Inr (c, n, i) \<longleftrightarrow>
     last_hit contract_hit (columns df) 0 None = Some c
     \<and> last_hit name_sel (columns df) 0 None = Some n
     \<and> last_hit id_sel (columns df) 0 None = Some i"
  by (auto simp: resolve_mapping_cols_def scan_cols_last_hit split: option.splits)

lemma resolve_mapping_cols_Inl:
  "resolve_mapping_cols df = Inl e \<longleftrightarrow>
     e = ValueError
     \<and> (last_hit contract_hit (columns df) 0 None = None
        \<or> last_hit name_sel (columns df) 0 None = None
        \<or> last_hit id_sel (columns df) 0 None = None)"
  by (auto simp: resolve_mapping_cols_def scan_cols_last_hit split: option.splits)

lemmas column_defs = resolve_mapping_cols_def resolve_id_col_def resolve_name_col_def
  contract_hit_def name_hit_def id_hit_def name_sel_def id_sel_def
  CONTRACT_MARK_def NAME_MARK_def ID_MARK_def ID_MARK_SHORT_def
  strip_def is_space_def startswith_def Let_def

text \<open>
  Claim C2, as the code has it.  In the copy and the move pipeline the column loop
  breaks at its first hit: the resolver returns column \<open>j\<close> exactly when \<open>j\<close> is the
  first column whose stripped header contains the marker, and it raises exactly when no
  header contains the marker; so a header that contains the marker, with no such header
  before it, is always the one selected.  The rename pipeline scans all headers in one
  pass with an \<open>if/elif/elif\<close> chain and no \<open>break\<close>: it returns the three columns
  \<open>(c, n, i)\<close> exactly when, for each of its three markers, that column is the LAST one
  that takes the marker's branch (a header takes the name branch only if it does not
  contain the contract marker, and the ID branch only if it contains neither of the
  other two), and it raises exactly when one of the three branches is taken by no
  header.
\<close>

theorem column_resolution:
  "(resolve_id_col df = Inr j \<longleftrightarrow>
      j < length (columns df) \<and> id_hit (strip (columns df ! j))
      \<and> (\<forall>k<j. \<not> id_hit (strip (columns df ! k))))
   \<and> (resolve_id_col df = Inl e \<longleftrightarrow>
      e = ValueError \<and> (\<forall>col\<in>set (columns df). \<not> id_hit (strip col)))
   \<and> (resolve_name_col df = Inr j' \<longleftrightarrow>
      j' < length (columns df) \<and> name_hit (strip (columns df ! j'))
      \<and> (\<forall>k<j'. \<not> name_hit (strip (columns df ! k))))
   \<and> (resolve_name_col df = Inl e \<longleftrightarrow>
      e = ValueError \<and> (\<forall>col\<in>set (columns df). \<not> name_hit (strip col)))
   \<and> (resolve_mapping_cols df = Inr (c, n, i) \<longleftrightarrow>
      (c < length (columns df) \<and> contract_hit (strip (columns df ! c))
       \<and> (\<forall>k. c < k \<and> k < length (columns df) \<longrightarrow> \<not> contract_hit (strip (columns df ! k))))
      \<and> (n < length (columns df) \<and> name_sel (strip (columns df ! n))
       \<and> (\<forall>k. n < k \<and> k < length (columns df) \<longrightarrow> \<not> name_sel (strip (columns df ! k))))
      \<and> (i < length (columns df) \<and> id_sel (strip (columns df ! i))
       \<and> (\<forall>k. i < k \<and> k < length (columns df) \<longrightarrow> \<not> id_sel (strip (columns df ! k)))))
   \<and> (resolve_mapping_cols df = Inl e \<longleftrightarrow>
      e = ValueError
      \<and> ((\<forall>col\<in>set (columns df). \<not> contract_hit (strip col))
         \<or> (\<forall>col\<in>set (columns df). \<not> name_sel (strip col))
         \<or> (\<forall>col\<in>set (columns df). \<not> id_sel (strip col))))"
  unfolding resolve_id_col_Inr resolve_id_col_Inl resolve_name_col_Inr resolve_name_col_Inl
    resolve_mapping_cols_Inr resolve_mapping_cols_Inl first_col_iff first_col_None
    last_hit_iff last_hit_None
  by (intro conjI refl)

theorem column_resolution_witness:
  "resolve_id_col \<lparr>columns = [CONTRACT_MARK, CONTRACT_MARK @ [50], NAME_MARK, ID_MARK,
        NAME_MARK @ [50], ID_MARK @ [50]], rows = []\<rparr> = Inr 3
   \<and> resolve_name_col \<lparr>columns = [CONTRACT_MARK, CONTRACT_MARK @ [50], NAME_MARK, ID_MARK,
        NAME_MARK @ [50], ID_MARK @ [50]], rows = []\<rparr> = Inr 2
   \<and> resolve_mapping_cols \<lparr>columns = [CONTRACT_MARK, CONTRACT_MARK @ [50], NAME_MARK, ID_MARK,
        NAME_MARK @ [50], ID_MARK @ [50]], rows = []\<rparr> = Inr (1, 4, 5)
   \<and> id_hit (strip ID_MARK) \<and> name_hit (strip NAME_MARK)
   \<and> contract_hit (strip (CONTRACT_MARK @ [50]))
   \<and> name_sel (strip (NAME_MARK @ [50])) \<and> id_sel (strip (ID_MARK @ [50]))
   \<and> \<not> id_hit (strip CONTRACT_MARK) \<and> \<not> id_hit (strip (CONTRACT_MARK @ [50]))
   \<and> \<not> id_hit (strip NAME_MARK) \<and> \<not> name_hit (strip CONTRACT_MARK)
   \<and> \<not> name_hit (strip (CONTRACT_MARK @ [50]))"
  using column_resolution[of "\<lparr>columns = [CONTRACT_MARK, CONTRACT_MARK @ [50], NAME_MARK, ID_MARK,
        NAME_MARK @ [50], ID_MARK @ [50]], rows = []\<rparr>" 3 ValueError 2 1 4 5]
  by (simp add: column_defs)

text \<open>
  The claim as the specification words it fails for the rename pipeline: with two
  headers that contain the contract marker (columns 0 and 1), two that contain the name
  marker (2 and 4) and two that contain the ID marker (3 and 5), \<open>read_excel_mapping\<close>
  resolves the later column of each pair.
\<close>

theorem rename_resolver_takes_last:
  "contract_hit (strip CONTRACT_MARK) \<and> name_hit (strip NAME_MARK) \<and> id_hit (strip ID_MARK)
   \<and> resolve_mapping_cols \<lparr>columns = [CONTRACT_MARK, CONTRACT_MARK @ [50], NAME_MARK, ID_MARK,
        NAME_MARK @ [50], ID_MARK @ [50]], rows = []\<rparr> = Inr (1, 4, 5)"
  by (simp add: column_defs)


section \<open>Numeric keys\<close>

lemma bit_length_le: "n < 2 ^ k \<Longrightarrow> bit_length n \<le> k"
proof (induction k arbitrary: n)
  case 0
  then show ?case by (simp add: bit_length.simps)
next
  case (Suc k)
  then have "n div 2 < 2 ^ k" by simp
  from Suc.IH[OF this] show ?case by (subst bit_length.simps) simp
qed

lemma bit_length_pos: "0 < n \<Longrightarrow> 0 < bit_length n"
  by (subst bit_length.simps) simp

lemma bit_length_eq: "2 ^ k \<le> n \<Longrightarrow> n < 2 ^ Suc k \<Longrightarrow> bit_length n = Suc k"
proof (induction k arbitrary: n)
  case 0
  then have "n = 1" by simp
  then show ?case by (simp add: bit_length.simps)
next
  case (Suc k)
  from Suc.prems have "2 ^ k \<le> n div 2" "n div 2 < 2 ^ Suc k" by simp_all
  from Suc.IH[OF this] Suc.prems show ?case by (subst bit_length.simps) auto
qed

lemma int_float_small:
  assumes "n < 2 ^ 53"
  shows "py_int_float (Number False (10 * n) (- 1)) = Inr (int n)"
proof (cases "n = 0")
  case True
  then show ?thesis by (simp add: py_int_float_def Let_def)
next
  case False
  then have pos: "0 < bit_length n" by (simp add: bit_length_pos)
  have le: "bit_length n \<le> 53" using assms by (rule bit_length_le)
  have small: "n < 2 ^ 1024"
  proof -
    have "(2::nat) ^ 53 \<le> 2 ^ 1024" by (rule power_increasing) simp_all
    with assms show ?thesis by linarith
  qed
  show ?thesis
  proof (cases "bit_length n = 53")
    case True
    with False small show ?thesis by (simp add: py_int_float_def Let_def)
  next
    case False
    with le have lt: "bit_length n < 53" by simp
    have "(10 * n * 2 ^ j) div 10 = n * 2 ^ j" for j :: nat
      by (simp add: mult.assoc)
    moreover have "(10 * n * 2 ^ j) mod 10 = 0" for j :: nat
      by (simp add: mult.assoc)
    ultimately show ?thesis using \<open>n \<noteq> 0\<close> lt pos small
      by (simp add: py_int_float_def Let_def)
  qed
qed

lemma ascii_digit_not_space: "ascii_digit c \<Longrightarrow> \<not> float_space c"
  by (auto simp: ascii_digit_def float_space_def is_space_def)

lemma ascii_digit_set_decimal: "list_all ascii_digit ds \<Longrightarrow> list_all is_decimal ds"
  by (induction ds) (simp_all add: ascii_digit_decimal)

lemma float_literal_point_zero:
  "py_float_literal (py_str_nat n @ [46, 48]) = Inr (Number False (10 * n) (- 1))"
proof -
  obtain d ds where ds: "py_str_nat n = d # ds"
    using py_str_nat_nonempty[of n] by (cases "py_str_nat n") auto
  have dig: "list_all ascii_digit (d # ds)" using py_str_nat_digits[of n] ds by simp
  then have d: "ascii_digit d" by simp
  have dec: "list_all is_decimal (d # ds)" using dig by (rule ascii_digit_set_decimal)
  have z: "ascii_digit 48" by (simp add: ascii_digit_def)
  have no_us: "95 \<notin> set (d # ds @ [46, 48])"
    using dig by (auto simp: ascii_digit_def list_all_iff)
  have du: "drop_underscores (d # ds @ [46, 48]) = Some (d # ds @ [46, 48])"
    using no_us by (simp add: drop_underscores_def)
  have fs: "float_strip (d # ds @ [46, 48]) = d # ds @ [46, 48]"
    using ascii_digit_not_space[OF d] ascii_digit_not_space[OF z]
    by (simp add: float_strip_def)
  have sg: "split_sign (d # ds @ [46, 48]) = (False, d # ds @ [46, 48])"
    using d by (simp add: ascii_digit_def)
  have lo: "py_lower (d # ds @ [46, 48]) = d # py_lower (ds @ [46, 48])"
    using d by (simp add: py_lower_def ascii_lower_def ascii_digit_def)
  have dne: "d \<noteq> 105" "d \<noteq> 110" using d by (simp_all add: ascii_digit_def)
  have tw: "takeWhile is_decimal ((d # ds) @ 46 # [48]) = d # ds"
    using dec dot_not_decimal by (rule takeWhile_all_then_stop)
  have dw: "dropWhile is_decimal ((d # ds) @ 46 # [48]) = 46 # [48]"
    using dec dot_not_decimal by (rule dropWhile_all_then_stop)
  have z48: "is_decimal 48" using z by (rule ascii_digit_decimal)
  have dv: "dec_value ((d # ds) @ [48]) = 10 * n"
    using dec_value_snoc[of "d # ds" 48] dec_value_py_str_nat[of n] ascii_digit_val[OF z] ds
    by simp
  have pn: "parse_number (d # ds @ [46, 48]) = Some (10 * n, - 1)"
    using tw dw dv z48 by (simp add: parse_number_def parse_exponent_def Let_def)
  show ?thesis
    unfolding ds using du fs sg lo dne pn
    by (simp add: py_float_literal_def)
qed

lemmas literal_defs = py_float_literal_def drop_underscores_def float_strip_def
  float_space_def is_space_def parse_number_def is_decimal_def nd_bases_def parse_exponent_def
  dec_value_def digit_val_def py_lower_def ascii_lower_def Let_def

lemma bit_length_upper: "n < 2 ^ bit_length n"
proof (induction n rule: bit_length.induct)
  case (1 n)
  show ?case
  proof (cases "n = 0")
    case True
    then show ?thesis by simp
  next
    case False
    with 1 have "n div 2 < 2 ^ bit_length (n div 2)" by simp
    then have "n < 2 * 2 ^ bit_length (n div 2)" by linarith
    with False show ?thesis by (subst bit_length.simps) simp
  qed
qed

lemma bit_length_lower: "0 < n \<Longrightarrow> 2 ^ (bit_length n - 1) \<le> n"
proof (induction n rule: bit_length.induct)
  case (1 n)
  show ?case
  proof (cases "n div 2 = 0")
    case True
    with "1.prems" have "n = 1" by (simp add: div_eq_0_iff) 
    then show ?thesis by (simp add: bit_length.simps)
  next
    case False
    with 1 have ih: "2 ^ (bit_length (n div 2) - 1) \<le> n div 2" by simp
    from False have p: "0 < bit_length (n div 2)" by (simp add: bit_length_pos)
    have "bit_length n = Suc (bit_length (n div 2))"
      using "1.prems" by (subst bit_length.simps) simp
    then have "bit_length n - 1 = Suc (bit_length (n div 2) - 1)" using p by simp
    then have "(2::nat) ^ (bit_length n - 1) = 2 * 2 ^ (bit_length (n div 2) - 1)" by simp
    also have "\<dots> \<le> 2 * (n div 2)" using ih by simp
    also have "\<dots> \<le> n" by simp
    finally show ?thesis .
  qed
qed

lemma int_float_overflow:
  assumes big: "2 ^ 1024 \<le> m * 10 ^ x"
  shows "py_int_float (Number neg m (int x)) = Inl OverflowError"
proof -
  let ?n = "m * 10 ^ x"
  have pos: "0 < ?n"
  proof -
    have "(0::nat) < 2 ^ 1024" by simp
    with big show ?thesis by linarith
  qed
  from bit_length_pos[OF pos] obtain j where j: "bit_length ?n = Suc j"
    by (cases "bit_length ?n") auto
  have "(2::nat) ^ 1024 < 2 ^ bit_length ?n"
    using big bit_length_upper[of ?n] by linarith
  then have "1024 < bit_length ?n" by (simp only: power_strict_increasing_iff[of 2, simplified] one_less_numeral_iff semiring_norm power_strict_increasing_iff)
  with j have j1024: "1024 \<le> j" by simp
  have lo: "2 ^ j \<le> ?n" using bit_length_lower[OF pos] j by simp
  let ?D = "(2::nat) ^ (j - 52)"
  have "j = 52 + (j - 52)" using j1024 by simp
  then have "(2::nat) ^ j = 2 ^ (52 + (j - 52))" by (rule arg_cong)
  also have "\<dots> = 2 ^ 52 * ?D" by (rule power_add)
  finally have split: "(2::nat) ^ j = 2 ^ 52 * ?D" .
  have "(2 ^ 52 * ?D) div ?D \<le> ?n div ?D"
    using lo unfolding split by (rule div_le_mono)
  then have f52: "2 ^ 52 \<le> ?n div ?D" by simp
  then have "2 ^ 52 * ?D \<le> (?n div ?D) * ?D" by (rule mult_le_mono1)
  then have v1: "2 ^ j \<le> (?n div ?D) * ?D" using split by simp
  have "(2::nat) ^ 1024 \<le> 2 ^ j" using j1024 by (rule power_increasing) simp
  with v1 have g1: "2 ^ 1024 \<le> (?n div ?D) * ?D" by linarith
  then have g2: "2 ^ 1024 \<le> ?D + (?n div ?D) * ?D" by linarith
  have e: "nat (int j - 52) = j - 52" by simp
  have c: "(52::int) \<le> int j" using j1024 by simp
  have nz: "?n \<noteq> 0" using pos by simp
  show ?thesis
    using g1 g2 nz c
    by (simp add: py_int_float_def Let_def j e del: power_numeral)
qed

lemma overflow_example:
  "py_float_literal [49, 46, 48, 101, 51, 48, 57] = Inr (Number False 10 308)
   \<and> py_int_float (Number False 10 308) = Inl OverflowError"
proof -
  have "(2::nat) ^ 1024 \<le> 10 * 10 ^ 308" by simp
  from int_float_overflow[OF this, of False]
  have "py_int_float (Number False 10 308) = Inl OverflowError" by simp
  moreover have "py_float_literal [49, 46, 48, 101, 51, 48, 57] = Inr (Number False 10 308)"
    by (simp add: literal_defs)
  ultimately show ?thesis by simp
qed

text \<open>
  Claim C4, as the code has it.  The key goes through a binary64 float, which holds
  every integer up to \<open>2 ^ 53\<close> exactly: for every \<open>n\<close> up to \<open>2 ^ 53\<close> the text of \<open>n\<close>
  followed by \<open>.0\<close> is normalised to the text of \<open>n\<close>.  A value for which \<open>float\<close> or
  \<open>int\<close> raises (ValueError, OverflowError) passes through unchanged.
\<close>

theorem normalize_numeric_point_zero:
  "(n \<le> 2 ^ 53 \<longrightarrow> normalize_numeric (py_str_nat n @ [46, 48]) = py_str_nat n)
   \<and> (py_float_literal v = Inl e \<longrightarrow> normalize_numeric v = v)
   \<and> (py_float_literal v = Inr l \<and> py_int_float l = Inl e \<longrightarrow> normalize_numeric v = v)"
proof (intro conjI impI)
  assume le: "n \<le> 2 ^ 53"
  show "normalize_numeric (py_str_nat n @ [46, 48]) = py_str_nat n"
  proof (cases "n = 2 ^ 53")
    case True
    have p: "(2::nat) ^ 53 = 9007199254740992" by simp
    have "py_int_float (Number False (10 * 9007199254740992) (- 1)) = Inr (int 9007199254740992)"
      by (simp add: py_int_float_def Let_def bit_length.simps)
    then show ?thesis unfolding True p
      by (simp add: normalize_numeric_def float_literal_point_zero py_str_int_def)
  next
    case False
    with le have "n < 2 ^ 53" by simp
    from int_float_small[OF this] show ?thesis
      by (simp add: normalize_numeric_def float_literal_point_zero py_str_int_def)
  qed
next
  assume "py_float_literal v = Inl e"
  then show "normalize_numeric v = v" by (simp add: normalize_numeric_def)
next
  assume "py_float_literal v = Inr l \<and> py_int_float l = Inl e"
  then show "normalize_numeric v = v" by (simp add: normalize_numeric_def)
qed

theorem normalize_numeric_point_zero_witness:
  "(100000123::nat) \<le> 2 ^ 53
   \<and> normalize_numeric (py_str_nat 100000123 @ [46, 48]) = py_str_nat 100000123
   \<and> py_float_literal [49, 46, 50, 46, 51] = Inl ValueError
   \<and> normalize_numeric [49, 46, 50, 46, 51] = [49, 46, 50, 46, 51]
   \<and> py_float_literal [49, 46, 48, 101, 51, 48, 57] = Inr (Number False 10 308)
   \<and> py_int_float (Number False 10 308) = Inl OverflowError
   \<and> normalize_numeric [49, 46, 48, 101, 51, 48, 57] = [49, 46, 48, 101, 51, 48, 57]"
proof -
  have a: "(100000123::nat) \<le> 2 ^ 53" by simp
  have b: "py_float_literal [49, 46, 50, 46, 51] = Inl ValueError"
    by (simp add: literal_defs)
  note c = overflow_example
  show ?thesis
    using a b c
      normalize_numeric_point_zero[of 100000123 "[49, 46, 50, 46, 51]" ValueError "Infinity False"]
      normalize_numeric_point_zero[of 100000123 "[49, 46, 48, 101, 51, 48, 57]" OverflowError
        "Number False 10 308"]
    by simp
qed

text \<open>
  The claim as the specification words it, with no bound on \<open>n\<close>, fails: the float
  nearest to \<open>2 ^ 53 + 1\<close> is \<open>2 ^ 53\<close>, and an 18-digit ID number read back with a
  trailing \<open>.0\<close> loses its last digits (\<open>110101199001011234.0\<close> becomes
  \<open>110101199001011232\<close>).
\<close>

theorem normalize_numeric_rounds_large:
  "normalize_numeric (py_str_nat 9007199254740993 @ [46, 48]) = py_str_nat 9007199254740992
   \<and> py_str_nat 9007199254740992 \<noteq> py_str_nat 9007199254740993
   \<and> normalize_numeric [49, 49, 48, 49, 48, 49, 49, 57, 57, 48, 48, 49, 48, 49, 49, 50, 51, 52, 46, 48]
        = [49, 49, 48, 49, 48, 49, 49, 57, 57, 48, 48, 49, 48, 49, 49, 50, 51, 50]"
proof -
  have b1: "bit_length 9007199254740993 = Suc 53"
    by (rule bit_length_eq) simp_all
  have "py_int_float (Number False (10 * 9007199254740993) (- 1)) = Inr 9007199254740992"
    by (simp add: py_int_float_def Let_def b1)
  then have 1: "normalize_numeric (py_str_nat 9007199254740993 @ [46, 48])
                  = py_str_nat 9007199254740992"
    by (simp add: normalize_numeric_def float_literal_point_zero py_str_int_def)
  have 2: "py_str_nat 9007199254740992 \<noteq> py_str_nat 9007199254740993"
    using py_str_nat_inj[of 9007199254740992 9007199254740993] by auto
  have s: "[49, 49, 48, 49, 48, 49, 49, 57, 57, 48, 48, 49, 48, 49, 49, 50, 51, 52]
             = py_str_nat 110101199001011234"
    by (simp add: py_str_nat.simps)
  have t: "py_str_nat 110101199001011232
             = [49, 49, 48, 49, 48, 49, 49, 57, 57, 48, 48, 49, 48, 49, 49, 50, 51, 50]"
    by (simp add: py_str_nat.simps)
  have b2: "bit_length 110101199001011234 = Suc 56"
    by (rule bit_length_eq) simp_all
  have "py_int_float (Number False (10 * 110101199001011234) (- 1)) = Inr 110101199001011232"
    by (simp add: py_int_float_def Let_def b2)
  then have "normalize_numeric (py_str_nat 110101199001011234 @ [46, 48])
                  = py_str_nat 110101199001011232"
    by (simp add: normalize_numeric_def float_literal_point_zero py_str_int_def)
  then have 3: "normalize_numeric
      [49, 49, 48, 49, 48, 49, 49, 57, 57, 48, 48, 49, 48, 49, 49, 50, 51, 52, 46, 48]
        = [49, 49, 48, 49, 48, 49, 49, 57, 57, 48, 48, 49, 48, 49, 49, 50, 51, 50]"
    using s t by (metis append_Cons append_Nil append_assoc)
  from 1 2 3 show ?thesis by simp
qed


section \<open>Grammar B\<close>

text \<open>
  Claim C5, as the code has it.  The primary attempt is \<open>re.search\<close> with
  \<open>re.IGNORECASE\<close> and no anchor: it succeeds exactly on the file names that contain,
  anywhere, the prefix literal, a non-empty name segment without a newline, an
  18-character ID token (17 decimal digits and a digit or \<open>X\<close>/\<open>x\<close>) and the extension
  in any case; the groups hold that name and that token.  Characters before the prefix
  or after the extension do not prevent the match, and such a file name yields a match
  overall.
\<close>

theorem primary_match_unanchored:
  "(primary_match s = Some (gs, rest) \<longrightarrow>
      (\<exists>pre name tok ext. s = pre @ PREFIX @ name @ tok @ ext @ rest \<and> name \<noteq> []
          \<and> 10 \<notin> set name \<and> id_token tok \<and> py_lower ext = DOT_PDF
          \<and> group gs 1 = Some name \<and> group gs 2 = Some tok))
   \<and> (name' \<noteq> [] \<and> 10 \<notin> set name' \<and> id_token tok' \<and> py_lower ext' = DOT_PDF \<longrightarrow>
        primary_match (pre' @ PREFIX @ name' @ tok' @ ext' @ post') \<noteq> None
        \<and> extract_name_and_id_from_filename (pre' @ PREFIX @ name' @ tok' @ ext' @ post') \<noteq> None)"
proof (intro conjI impI)
  assume "primary_match s = Some (gs, rest)"
  then have "search_from True name_id_pattern True s = Some (gs, rest)"
    by (simp add: primary_match_def re_search_def)
  from search_sound[OF this] obtain pre r b where s: "s = pre @ r"
    and r: "rx True name_id_pattern b r [] [] = Some (gs, rest)" by blast
  from rx_name_id_sound[OF r] obtain name tok ext where
    "r = PREFIX @ name @ tok @ ext @ rest" "name \<noteq> []" "10 \<notin> set name"
    "id_token tok" "py_lower ext = DOT_PDF" "gs = [(2, tok), (1, name)]" by blast
  with s show "\<exists>pre name tok ext. s = pre @ PREFIX @ name @ tok @ ext @ rest \<and> name \<noteq> []
          \<and> 10 \<notin> set name \<and> id_token tok \<and> py_lower ext = DOT_PDF
          \<and> group gs 1 = Some name \<and> group gs 2 = Some tok"
    by (auto simp: group_def)
next
  assume a: "name' \<noteq> [] \<and> 10 \<notin> set name' \<and> id_token tok' \<and> py_lower ext' = DOT_PDF"
  then have "rx True name_id_pattern False (PREFIX @ name' @ tok' @ ext' @ post') [] [] \<noteq> None"
    by (intro rx_name_id_complete) simp_all
  from search_complete[OF no_bol_name_id this, of True pre']
  show pm: "primary_match (pre' @ PREFIX @ name' @ tok' @ ext' @ post') \<noteq> None"
    by (simp add: primary_match_def re_search_def)
  then obtain gs rest where p: "primary_match (pre' @ PREFIX @ name' @ tok' @ ext' @ post') = Some (gs, rest)"
    by auto
  then have "search_from True name_id_pattern True (pre' @ PREFIX @ name' @ tok' @ ext' @ post') = Some (gs, rest)"
    by (simp add: primary_match_def re_search_def)
  from search_sound[OF this] obtain pre r b where
    r: "rx True name_id_pattern b r [] [] = Some (gs, rest)" by blast
  from rx_name_id_sound[OF r] obtain name tok where "gs = [(2, tok), (1, name)]" by blast
  with p show "extract_name_and_id_from_filename (pre' @ PREFIX @ name' @ tok' @ ext' @ post') \<noteq> None"
    by (simp add: extract_name_and_id_from_filename_def group_def Let_def)
qed

theorem primary_match_unanchored_witness:
  "primary_match ([22791, 20221] @ PREFIX @ [24352, 19977] @ [49, 49, 48, 49, 48, 49, 49, 57, 57, 48, 48, 49, 48, 49, 49, 50, 51, 52] @ DOT_PDF)
     = Some ([(2, [49, 49, 48, 49, 48, 49, 49, 57, 57, 48, 48, 49, 48, 49, 49, 50, 51, 52]), (1, [24352, 19977])], [])
   \<and> id_token [49, 49, 48, 49, 48, 49, 49, 57, 57, 48, 48, 49, 48, 49, 49, 50, 51, 52]
   \<and> py_lower DOT_PDF = DOT_PDF
   \<and> primary_match ([22791, 20221] @ PREFIX @ [24352, 19977] @ [49, 49, 48, 49, 48, 49, 49, 57, 57, 48, 48, 49, 48, 49, 49, 50, 51, 52] @ DOT_PDF @ []) \<noteq> None
   \<and> extract_name_and_id_from_filename
        ([22791, 20221] @ PREFIX @ [24352, 19977] @ [49, 49, 48, 49, 48, 49, 49, 57, 57, 48, 48, 49, 48, 49, 49, 50, 51, 52] @ DOT_PDF @ []) \<noteq> None"
proof -
  have p: "primary_match ([22791, 20221] @ PREFIX @ [24352, 19977] @ [49, 49, 48, 49, 48, 49, 49, 57, 57, 48, 48, 49, 48, 49, 49, 50, 51, 52] @ DOT_PDF)
     = Some ([(2, [49, 49, 48, 49, 48, 49, 49, 57, 57, 48, 48, 49, 48, 49, 49, 50, 51, 52]), (1, [24352, 19977])], [])"
    by (simp add: grammar_b_eval)
  have t: "id_token [49, 49, 48, 49, 48, 49, 49, 57, 57, 48, 48, 49, 48, 49, 49, 50, 51, 52]"
    by (simp add: id_token_def is_decimal_def nd_bases_def)
  have e: "py_lower DOT_PDF = DOT_PDF" by (simp add: py_lower_def DOT_PDF_def ascii_lower_def)
  have n: "[24352, 19977] \<noteq> ([]::pystr) \<and> 10 \<notin> set [24352, 19977::nat]" by simp
  from p t e n
    primary_match_unanchored[of "[22791, 20221] @ PREFIX @ [24352, 19977] @ [49, 49, 48, 49, 48, 49, 49, 57, 57, 48, 48, 49, 48, 49, 49, 50, 51, 52] @ DOT_PDF"
      "[(2, [49, 49, 48, 49, 48, 49, 49, 57, 57, 48, 48, 49, 48, 49, 49, 50, 51, 52]), (1, [24352, 19977])]" "[]" "[24352, 19977]" "[49, 49, 48, 49, 48, 49, 49, 57, 57, 48, 48, 49, 48, 49, 49, 50, 51, 52]" DOT_PDF "[22791, 20221]" "[]"]
  show ?thesis by simp
qed

text \<open>
  The claim as the specification words it fails: a file name with two characters
  (U+5907 U+4EFD) before the prefix is matched by the primary attempt, and the function
  returns its name and ID number.
\<close>

theorem primary_match_after_leading_text:
  "primary_match ([22791, 20221] @ PREFIX @ [24352, 19977] @ [49, 49, 48, 49, 48, 49, 49, 57, 57, 48, 48, 49, 48, 49, 49, 50, 51, 52] @ DOT_PDF)
     = Some ([(2, [49, 49, 48, 49, 48, 49, 49, 57, 57, 48, 48, 49, 48, 49, 49, 50, 51, 52]), (1, [24352, 19977])], [])
   \<and> extract_name_and_id_from_filename ([22791, 20221] @ PREFIX @ [24352, 19977] @ [49, 49, 48, 49, 48, 49, 49, 57, 57, 48, 48, 49, 48, 49, 49, 50, 51, 52] @ DOT_PDF)
     = Some ([24352, 19977], [49, 49, 48, 49, 48, 49, 49, 57, 57, 48, 48, 49, 48, 49, 49, 50, 51, 52])"
  by (simp add: grammar_b_eval)


text \<open>
  Claim C9.  For every file name that is exactly the prefix literal, an 18-character ID
  token and \<open>.pdf\<close>, the primary pattern does not match (it asks for at least one
  character of name) and the fallback returns the empty name with the token in upper
  case.  The copy loop then goes on with such a document: when the ID is in the sheet's
  set it chooses a destination and calls the copy primitive, counting the document as
  matched, or as an error if the primitive raises.
\<close>

theorem fallback_accepts_missing_name:
  "id_token tok \<Longrightarrow>
     primary_match (PREFIX @ tok @ DOT_PDF) = None
     \<and> extract_name_and_id_from_filename (PREFIX @ tok @ DOT_PDF) = Some ([], py_upper tok)
     \<and> (name_of pdf_file = PREFIX @ tok @ DOT_PDF \<and> py_upper tok \<in> excel_id_numbers \<longrightarrow>
          copy_step copy excel_id_numbers output_dir (n, fs) pdf_file =
            (case copy fs pdf_file (collision_free_dest fs output_dir pdf_file) of
               Inr fs' \<Rightarrow> (n\<lparr>matched_count := matched_count n + 1\<rparr>, fs')
             | Inl e \<Rightarrow> (n\<lparr>error_count := error_count n + 1\<rparr>, fs)))"
  by (simp add: primary_none_without_name extract_without_name copy_step_def)

lemmas pipeline_eval = copy_step_def match_and_copy_loop_def name_of_def collision_free_dest_def
  path_exists_def copy2_def

theorem fallback_accepts_missing_name_witness:
  "id_token [49, 49, 48, 49, 48, 49, 49, 57, 57, 48, 48, 49, 48, 49, 49, 50, 51, 120]
   \<and> extract_name_and_id_from_filename
        (PREFIX @ [49, 49, 48, 49, 48, 49, 49, 57, 57, 48, 48, 49, 48, 49, 49, 50, 51, 120] @ DOT_PDF)
      = Some ([], [49, 49, 48, 49, 48, 49, 49, 57, 57, 48, 48, 49, 48, 49, 49, 50, 51, 88])
   \<and> copy_step copy2 {[49, 49, 48, 49, 48, 49, 49, 57, 57, 48, 48, 49, 48, 49, 49, 50, 51, 88]}
        [[100], [111]]
        (\<lparr>matched_count = 0, unmatched_count = 0, error_count = 0\<rparr>,
         [([[100], PREFIX @ [49, 49, 48, 49, 48, 49, 49, 57, 57, 48, 48, 49, 48, 49, 49, 50, 51, 120] @ DOT_PDF], Blob 0)])
        [[100], PREFIX @ [49, 49, 48, 49, 48, 49, 49, 57, 57, 48, 48, 49, 48, 49, 49, 50, 51, 120] @ DOT_PDF]
      = (\<lparr>matched_count = 1, unmatched_count = 0, error_count = 0\<rparr>,
         [([[100], PREFIX @ [49, 49, 48, 49, 48, 49, 49, 57, 57, 48, 48, 49, 48, 49, 49, 50, 51, 120] @ DOT_PDF], Blob 0),
          ([[100], [111], PREFIX @ [49, 49, 48, 49, 48, 49, 49, 57, 57, 48, 48, 49, 48, 49, 49, 50, 51, 120] @ DOT_PDF], Blob 0)])"
proof -
  let ?tok = "[49, 49, 48, 49, 48, 49, 49, 57, 57, 48, 48, 49, 48, 49, 49, 50, 51, 120::nat]"
  let ?f = "[[100], PREFIX @ ?tok @ DOT_PDF]"
  have t: "id_token ?tok" by (simp add: id_token_def is_decimal_def nd_bases_def)
  have u: "py_upper ?tok = [49, 49, 48, 49, 48, 49, 49, 57, 57, 48, 48, 49, 48, 49, 49, 50, 51, 88]"
    by (simp add: py_upper_def ascii_upper_def)
  have nm: "name_of ?f = PREFIX @ ?tok @ DOT_PDF" by (simp add: name_of_def)
  have d: "collision_free_dest [(?f, Blob 0)] [[100], [111]] ?f = [[100], [111], PREFIX @ ?tok @ DOT_PDF]"
    by (simp add: collision_free_dest_def path_exists_def name_of_def)
  have c: "copy2 [(?f, Blob 0)] ?f [[100], [111], PREFIX @ ?tok @ DOT_PDF]
             = Inr [(?f, Blob 0), ([[100], [111], PREFIX @ ?tok @ DOT_PDF], Blob 0)]"
    by (simp add: copy2_def)
  from fallback_accepts_missing_name[OF t, of ?f
        "{[49, 49, 48, 49, 48, 49, 49, 57, 57, 48, 48, 49, 48, 49, 49, 50, 51, 88]}"
        copy2 "[[100], [111]]" "\<lparr>matched_count = 0, unmatched_count = 0, error_count = 0\<rparr>"
        "[(?f, Blob 0)]"] t u nm d c
  show ?thesis by simp
qed


section \<open>The copy pipeline on the case of the check character\<close>

lemmas sheet_eval = read_excel_id_numbers_def resolve_id_col_def id_hit_def ID_MARK_def
  ID_MARK_SHORT_def NAME_MARK_def cell_at_def cell_str_def absent_def NAN_def normalize_numeric_def
  strip_def is_space_def startswith_def Let_def SUCCESS_def FAILURE_def

text \<open>
  Claim C1 at a failing input.  The sheet holds the ID \<open>11010119900101123x\<close> with a
  small \<open>x\<close> and the file name carries the same ID with a capital \<open>X\<close>.  The ID taken
  from the file name is put in upper case, the IDs read by \<open>read_excel_id_numbers\<close> are
  not: the membership test of the loop fails and the document is counted as unmatched.
  The annotation pass of the same function puts both sides in upper case and marks the
  very same row as found.
\<close>

theorem sheet_id_case_sensitive:
  "read_excel_id_numbers
      \<lparr>columns = [NAME_MARK, ID_MARK],
       rows = [[Some [24352, 19977],
                Some [49, 49, 48, 49, 48, 49, 49, 57, 57, 48, 48, 49, 48, 49, 49, 50, 51, 120]]]\<rparr>
     = Inr {[49, 49, 48, 49, 48, 49, 49, 57, 57, 48, 48, 49, 48, 49, 49, 50, 51, 120]}
   \<and> extract_name_and_id_from_filename (PREFIX @ [24352, 19977]
        @ [49, 49, 48, 49, 48, 49, 49, 57, 57, 48, 48, 49, 48, 49, 49, 50, 51, 88] @ DOT_PDF)
     = Some ([24352, 19977], [49, 49, 48, 49, 48, 49, 49, 57, 57, 48, 48, 49, 48, 49, 49, 50, 51, 88])
   \<and> match_and_copy_loop copy2
        {[49, 49, 48, 49, 48, 49, 49, 57, 57, 48, 48, 49, 48, 49, 49, 50, 51, 120]}
        [[100], [111]]
        [([[100], PREFIX @ [24352, 19977]
             @ [49, 49, 48, 49, 48, 49, 49, 57, 57, 48, 48, 49, 48, 49, 49, 50, 51, 88] @ DOT_PDF], Blob 0)]
        [[[100], PREFIX @ [24352, 19977]
             @ [49, 49, 48, 49, 48, 49, 49, 57, 57, 48, 48, 49, 48, 49, 49, 50, 51, 88] @ DOT_PDF]]
     = (\<lparr>matched_count = 0, unmatched_count = 1, error_count = 0\<rparr>,
        [([[100], PREFIX @ [24352, 19977]
             @ [49, 49, 48, 49, 48, 49, 49, 57, 57, 48, 48, 49, 48, 49, 49, 50, 51, 88] @ DOT_PDF], Blob 0)])
   \<and> annotate_ids 1
        (pdf_id_numbers_of [[[100], PREFIX @ [24352, 19977]
             @ [49, 49, 48, 49, 48, 49, 49, 57, 57, 48, 48, 49, 48, 49, 49, 50, 51, 88] @ DOT_PDF]])
        [[Some [24352, 19977],
          Some [49, 49, 48, 49, 48, 49, 49, 57, 57, 48, 48, 49, 48, 49, 49, 50, 51, 120]]]
     = [Some SUCCESS]"
proof -
  let ?X = "[49, 49, 48, 49, 48, 49, 49, 57, 57, 48, 48, 49, 48, 49, 49, 50, 51, 88::nat]"
  let ?x = "[49, 49, 48, 49, 48, 49, 49, 57, 57, 48, 48, 49, 48, 49, 49, 50, 51, 120::nat]"
  have e: "extract_name_and_id_from_filename (PREFIX @ [24352, 19977] @ ?X @ DOT_PDF)
     = Some ([24352, 19977], ?X)"
    by (simp add: grammar_b_eval)
  have r: "read_excel_id_numbers
      \<lparr>columns = [NAME_MARK, ID_MARK], rows = [[Some [24352, 19977], Some ?x]]\<rparr> = Inr {?x}"
    by (simp add: sheet_eval)
  have l: "match_and_copy_loop copy2 {?x} [[100], [111]]
        [([[100], PREFIX @ [24352, 19977] @ ?X @ DOT_PDF], Blob 0)]
        [[[100], PREFIX @ [24352, 19977] @ ?X @ DOT_PDF]]
     = (\<lparr>matched_count = 0, unmatched_count = 1, error_count = 0\<rparr>,
        [([[100], PREFIX @ [24352, 19977] @ ?X @ DOT_PDF], Blob 0)])"
    using e by (simp add: match_and_copy_loop_def copy_step_def name_of_def)
  have a: "annotate_ids 1
        (pdf_id_numbers_of [[[100], PREFIX @ [24352, 19977] @ ?X @ DOT_PDF]])
        [[Some [24352, 19977], Some ?x]] = [Some SUCCESS]"
    using e by (simp add: name_of_def sheet_eval py_upper_def ascii_upper_def)
  from e r l a show ?thesis by simp
qed


section \<open>The collision search\<close>

lemma free_dest_spec:
  "free_dest fs out base ext dest counter = (d, c) \<Longrightarrow>
     \<not> path_exists fs d
     \<and> ((\<not> path_exists fs dest \<and> d = dest \<and> c = counter)
        \<or> (path_exists fs dest
            \<and> (\<exists>k. counter \<le> k \<and> c = Suc k \<and> d = suffixed out base ext k
                   \<and> (\<forall>j. counter \<le> j \<and> j < k \<longrightarrow> path_exists fs (suffixed out base ext j)))))"
proof (induction fs out base ext dest counter rule: free_dest.induct)
  case (1 fs out base ext dest counter)
  show ?case
  proof (cases "path_exists fs dest")
    case False
    with "1.prems" show ?thesis by (simp add: free_dest.simps)
  next
    case True
    with "1.prems" have r: "free_dest fs out base ext (suffixed out base ext counter) (counter + 1) = (d, c)"
      by (simp add: free_dest.simps)
    from "1.IH"[OF True r] have nd: "\<not> path_exists fs d"
      and alt: "(\<not> path_exists fs (suffixed out base ext counter) \<and> d = suffixed out base ext counter \<and> c = counter + 1)
        \<or> (path_exists fs (suffixed out base ext counter)
            \<and> (\<exists>k. counter + 1 \<le> k \<and> c = Suc k \<and> d = suffixed out base ext k
                   \<and> (\<forall>j. counter + 1 \<le> j \<and> j < k \<longrightarrow> path_exists fs (suffixed out base ext j))))"
      by blast+
    from alt have "\<exists>k. counter \<le> k \<and> c = Suc k \<and> d = suffixed out base ext k
                   \<and> (\<forall>j. counter \<le> j \<and> j < k \<longrightarrow> path_exists fs (suffixed out base ext j))"
    proof
      assume "\<not> path_exists fs (suffixed out base ext counter) \<and> d = suffixed out base ext counter \<and> c = counter + 1"
      then show ?thesis by (intro exI[of _ counter]) auto
    next
      assume a: "path_exists fs (suffixed out base ext counter)
            \<and> (\<exists>k. counter + 1 \<le> k \<and> c = Suc k \<and> d = suffixed out base ext k
                   \<and> (\<forall>j. counter + 1 \<le> j \<and> j < k \<longrightarrow> path_exists fs (suffixed out base ext j)))"
      then obtain k where k: "counter + 1 \<le> k" "c = Suc k" "d = suffixed out base ext k"
        "\<forall>j. counter + 1 \<le> j \<and> j < k \<longrightarrow> path_exists fs (suffixed out base ext j)" by blast
      have "\<forall>j. counter \<le> j \<and> j < k \<longrightarrow> path_exists fs (suffixed out base ext j)"
      proof (intro allI impI)
        fix j assume j: "counter \<le> j \<and> j < k"
        show "path_exists fs (suffixed out base ext j)"
        proof (cases "j = counter")
          case True
          with a show ?thesis by simp
        next
          case False
          with j have "counter + 1 \<le> j \<and> j < k" by simp
          with k(4) show ?thesis by blast
        qed
      qed
      with k show ?thesis by (intro exI[of _ k]) simp
    qed
    with nd True show ?thesis by blast
  qed
qed

text \<open>
  Claim C8.  The destination chosen by the copy and the move pipeline never exists in
  the file system.  When the plain destination exists, the chosen name is the stem,
  \<open>_k\<close> and the extension (stem and extension together are the file name) for the
  smallest \<open>k\<close> from 1 on whose name does not exist: every name with a smaller suffix
  exists.
\<close>

theorem collision_suffix_smallest:
  "\<not> path_exists fs (collision_free_dest fs output_dir pdf_file)
   \<and> stem_of (name_of pdf_file) @ suffix_of (name_of pdf_file) = name_of pdf_file
   \<and> (path_exists fs (output_dir @ [name_of pdf_file]) \<longrightarrow>
        (\<exists>k. 1 \<le> k
           \<and> collision_free_dest fs output_dir pdf_file
               = output_dir @ [stem_of (name_of pdf_file) @ [95] @ py_str_nat k
                                 @ suffix_of (name_of pdf_file)]
           \<and> (\<forall>j. 1 \<le> j \<and> j < k \<longrightarrow>
                 path_exists fs (output_dir @ [stem_of (name_of pdf_file) @ [95] @ py_str_nat j
                                                  @ suffix_of (name_of pdf_file)]))))"
proof -
  let ?dest = "output_dir @ [name_of pdf_file]"
  let ?base = "stem_of (name_of pdf_file)" and ?ext = "suffix_of (name_of pdf_file)"
  obtain d c where fd: "free_dest fs output_dir ?base ?ext ?dest 1 = (d, c)"
    by (cases "free_dest fs output_dir ?base ?ext ?dest 1") auto
  note spec = free_dest_spec[OF fd]
  show ?thesis
  proof (cases "path_exists fs ?dest")
    case False
    then show ?thesis by (simp add: collision_free_dest_def stem_suffix)
  next
    case True
    then have cd: "collision_free_dest fs output_dir pdf_file = d"
      using fd by (simp add: collision_free_dest_def)
    from spec True obtain k where "1 \<le> k" "d = suffixed output_dir ?base ?ext k"
      "\<forall>j. 1 \<le> j \<and> j < k \<longrightarrow> path_exists fs (suffixed output_dir ?base ?ext j)" by blast
    with spec cd show ?thesis by (auto simp: suffixed_def stem_suffix)
  qed
qed

lemmas collision_eval = collision_free_dest_def free_dest.simps suffixed_def path_exists_def
  name_of_def stem_of_def suffix_of_def py_str_nat.simps Let_def

theorem collision_suffix_smallest_witness:
  "path_exists [([[111], [97, 46, 112, 100, 102]], Blob 0),
                ([[111], [97, 95, 49, 46, 112, 100, 102]], Blob 1),
                ([[111], [97, 95, 50, 46, 112, 100, 102]], Blob 2)]
               ([[111]] @ [name_of [[100], [97, 46, 112, 100, 102]]])
   \<and> collision_free_dest [([[111], [97, 46, 112, 100, 102]], Blob 0),
                ([[111], [97, 95, 49, 46, 112, 100, 102]], Blob 1),
                ([[111], [97, 95, 50, 46, 112, 100, 102]], Blob 2)]
               [[111]] [[100], [97, 46, 112, 100, 102]]
      = [[111], [97, 95, 51, 46, 112, 100, 102]]"
  using collision_suffix_smallest[of "[([[111], [97, 46, 112, 100, 102]], Blob 0),
                ([[111], [97, 95, 49, 46, 112, 100, 102]], Blob 1),
                ([[111], [97, 95, 50, 46, 112, 100, 102]], Blob 2)]"
               "[[111]]" "[[100], [97, 46, 112, 100, 102]]"]
  by (simp add: collision_eval)

section \<open>The counters of the three loops\<close>

lemma copy_step_one:
  "fst (copy_step copy ids out (n, fs) f)
     \<in> {n\<lparr>matched_count := matched_count n + 1\<rparr>, n\<lparr>unmatched_count := unmatched_count n + 1\<rparr>,
        n\<lparr>error_count := error_count n + 1\<rparr>}"
  by (simp add: copy_step_def split: option.splits sum.splits prod.splits)

lemma move_step_one:
  "fst (move_step move names out (n, fs) f)
     \<in> {n\<lparr>matched_count := matched_count n + 1\<rparr>, n\<lparr>unmatched_count := unmatched_count n + 1\<rparr>,
        n\<lparr>error_count := error_count n + 1\<rparr>}"
  by (simp add: move_step_def split: option.splits sum.splits prod.splits)

lemma copy_step_total: "total (fst (copy_step copy ids out st f)) = Suc (total (fst st))"
  using copy_step_one[of copy ids out "fst st" "snd st" f] by (auto simp: total_def)

lemma move_step_total: "total (fst (move_step move names out st f)) = Suc (total (fst st))"
  using move_step_one[of move names out "fst st" "snd st" f] by (auto simp: total_def)

lemma foldl_total:
  assumes "\<And>st f. t (fst (step st f)) = Suc (t (fst st))"
  shows "t (fst (foldl step st fs)) = t (fst st) + length fs"
  by (induction fs arbitrary: st) (simp_all add: assms)

text \<open>
  In the copy and the move loop every round adds one to exactly one counter, whatever
  the primitive does, and after the loop the counters add up to the number of files in
  the scanned list.
\<close>

lemma copy_and_move_loops_count_every_document:
  "matched_count (fst (match_and_copy_loop copy ids out fs pdf_files))
       + unmatched_count (fst (match_and_copy_loop copy ids out fs pdf_files))
       + error_count (fst (match_and_copy_loop copy ids out fs pdf_files)) = length pdf_files
   \<and> matched_count (fst (match_and_move_loop move names out fs pdf_files))
       + unmatched_count (fst (match_and_move_loop move names out fs pdf_files))
       + error_count (fst (match_and_move_loop move names out fs pdf_files)) = length pdf_files"
proof -
  have c: "total (fst (match_and_copy_loop copy ids out fs pdf_files)) = length pdf_files"
    unfolding match_and_copy_loop_def
    by (subst foldl_total[of total, OF copy_step_total]) (simp add: total_def)
  have m: "total (fst (match_and_move_loop move names out fs pdf_files)) = length pdf_files"
    unfolding match_and_move_loop_def
    by (subst foldl_total[of total, OF move_step_total]) (simp add: total_def)
  from c m show ?thesis unfolding total_def by blast
qed

text \<open>
  In the rename loop a round that ends inside the loop adds one to exactly one counter.
  A round ends outside the loop exactly when the document has a contract number with a
  usable name and ID in the mapping and \<open>new_path.exists()\<close> raises; then no counter
  has been touched.
\<close>

lemma rename_step_one:
  "rename_step rename mapping dir (n, fs) f = Inr (n', fs') \<Longrightarrow>
     n' \<in> {n\<lparr>success_count := success_count n + 1\<rparr>, n\<lparr>failed_count := failed_count n + 1\<rparr>,
          n\<lparr>skipped_count := skipped_count n + 1\<rparr>}"
  by (auto simp: rename_step_def Let_def split: option.splits sum.splits prod.splits if_splits)

lemma rename_step_raises:
  "rename_step rename mapping dir (n, fs) f = Inl e \<longleftrightarrow>
     (\<exists>contract_num name id_num.
         extract_contract_number (name_of f) = Some contract_num
         \<and> mapping contract_num = Some (name, id_num) \<and> \<not> blank name \<and> \<not> blank id_num
         \<and> stat_exists fs (dir @ [PREFIX @ name @ id_num @ DOT_PDF]) = Inl e)"
  by (auto simp: rename_step_def Let_def split: option.splits sum.splits prod.splits if_splits)

lemma rename_step_total:
  "rename_step rename mapping dir st f = Inr st' \<Longrightarrow>
     rename_total (fst st') = Suc (rename_total (fst st))"
  using rename_step_one[of rename mapping dir "fst st" "snd st" f "fst st'" "snd st'"]
  by (auto simp: rename_total_def)

lemma rename_rounds_total:
  "rename_rounds rename mapping dir st pdf_files = (st', e) \<Longrightarrow>
     (e = None \<longrightarrow> rename_total (fst st') = rename_total (fst st) + length pdf_files)
     \<and> (e \<noteq> None \<longrightarrow> rename_total (fst st') < rename_total (fst st) + length pdf_files)"
proof (induction pdf_files arbitrary: st)
  case Nil
  then show ?case by auto
next
  case (Cons f pdf_files)
  show ?case
  proof (cases "rename_step rename mapping dir st f")
    case (Inl x)
    with Cons.prems show ?thesis by auto
  next
    case (Inr st1)
    with Cons.prems have "rename_rounds rename mapping dir st1 pdf_files = (st', e)" by simp
    from Cons.IH[OF this] rename_step_total[OF Inr] show ?thesis by auto
  qed
qed

lemma strip_keeps:
  "s \<noteq> [] \<Longrightarrow> \<not> is_space (hd s) \<Longrightarrow> \<not> is_space (last s) \<Longrightarrow> strip s = s"
proof -
  assume s: "s \<noteq> []" and h: "\<not> is_space (hd s)" and l: "\<not> is_space (last s)"
  from s h have a: "dropWhile is_space s = s" by (cases s) simp_all
  from s l have "dropWhile is_space (rev s) = rev s"
    by (cases "rev s") (simp_all add: last_rev[symmetric] del: last_rev)
  with a show ?thesis by (simp add: strip_def)
qed

text \<open>
  Claim C6, at an input where the code leaves it.  The folder holds two documents; the
  sheet gives the contract number \<open>12345\<close> of the first one a name of ninety
  characters U+5F20 and an ID of eighteen digits.  The new file name has 326 bytes, more
  than a file name may have, so \<open>new_path.exists()\<close> raises \<open>OSError\<close>; the call
  stands before the \<open>try\<close> and the exception ends the loop: no counter has been
  incremented for the first document, the second document is never looked at, and the
  counters add up to 0 for a list of two files.  With the two-character name
  U+5F20 U+4E09 in the same row the loop runs to its end with one renamed and one
  skipped document.
\<close>

theorem rename_loop_uncounted_document:
  "utf8_length (PREFIX @ replicate 90 24352 @ [49, 49, 48, 49, 48, 49, 49, 57, 57, 48, 48, 49, 48, 49, 49, 50, 51, 52] @ DOT_PDF) = 326
   \<and> rename_loop path_rename [[49, 50, 51, 52, 53] \<mapsto> (replicate 90 24352, [49, 49, 48, 49, 48, 49, 49, 57, 57, 48, 48, 49, 48, 49, 49, 50, 51, 52])] [[100]]
        [([[100], PREFIX @ [49, 50, 51, 52, 53] @ DOT_PDF], Blob 0), ([[100], [98, 46, 112, 100, 102]], Blob 1)]
        [[[100], PREFIX @ [49, 50, 51, 52, 53] @ DOT_PDF], [[100], [98, 46, 112, 100, 102]]]
      = ((\<lparr>success_count = 0, failed_count = 0, skipped_count = 0\<rparr>,
          [([[100], PREFIX @ [49, 50, 51, 52, 53] @ DOT_PDF], Blob 0), ([[100], [98, 46, 112, 100, 102]], Blob 1)]),
         Some OSError)
   \<and> length [[[100], PREFIX @ [49, 50, 51, 52, 53] @ DOT_PDF], [[100], [98 :: nat, 46, 112, 100, 102]]] = 2
   \<and> rename_loop path_rename [[49, 50, 51, 52, 53] \<mapsto> ([24352, 19977], [49, 49, 48, 49, 48, 49, 49, 57, 57, 48, 48, 49, 48, 49, 49, 50, 51, 52])] [[100]]
        [([[100], PREFIX @ [49, 50, 51, 52, 53] @ DOT_PDF], Blob 0), ([[100], [98, 46, 112, 100, 102]], Blob 1)]
        [[[100], PREFIX @ [49, 50, 51, 52, 53] @ DOT_PDF], [[100], [98, 46, 112, 100, 102]]]
      = ((\<lparr>success_count = 1, failed_count = 0, skipped_count = 1\<rparr>,
          [([[100], [98, 46, 112, 100, 102]], Blob 1),
           ([[100], PREFIX @ [24352, 19977] @ [49, 49, 48, 49, 48, 49, 49, 57, 57, 48, 48, 49, 48, 49, 49, 50, 51, 52] @ DOT_PDF], Blob 0)]),
         None)"
proof -
  have e1: "extract_contract_number (PREFIX @ [49, 50, 51, 52, 53] @ DOT_PDF) = Some [49, 50, 51, 52, 53]"
    by (simp add: extract_contract_number_def re_match_def contract_pattern_def group_def
        PREFIX_def DOT_PDF_def rx.simps lit_eq_def is_decimal_def nd_bases_def)
  have e2: "extract_contract_number [98, 46, 112, 100, 102] = None"
    by (simp add: extract_contract_number_def re_match_def contract_pattern_def group_def
        PREFIX_def DOT_PDF_def rx.simps lit_eq_def is_decimal_def nd_bases_def)
  have n1: "strip (replicate 90 24352) = replicate 90 24352"
    by (rule strip_keeps) (simp_all add: is_space_def hd_replicate)
  have "length (replicate 90 (24352 :: nat)) \<noteq> length NAN" by (simp add: NAN_def)
  then have n2: "replicate 90 24352 \<noteq> NAN" by fastforce
  have b1: "\<not> blank (replicate 90 24352)" using n1 n2 by (simp add: blank_def)
  have b2: "\<not> blank [49, 49, 48, 49, 48, 49, 49, 57, 57, 48, 48, 49, 48, 49, 49, 50, 51, 52]"
    by (simp add: blank_def strip_def is_space_def NAN_def)
  have b3: "\<not> blank [24352, 19977]"
    by (simp add: blank_def strip_def is_space_def NAN_def)
  have "sum_list (replicate 90 (3 :: nat)) = 90 * 3" by (simp only: sum_list_replicate) simp
  then have u: "utf8_length (PREFIX @ replicate 90 24352 @ [49, 49, 48, 49, 48, 49, 49, 57, 57, 48, 48, 49, 48, 49, 49, 50, 51, 52] @ DOT_PDF) = 326"
    by (simp add: utf8_length_def utf8_bytes_def PREFIX_def DOT_PDF_def)
  have s1: "stat_exists fs [[100], PREFIX @ replicate 90 24352 @ [49, 49, 48, 49, 48, 49, 49, 57, 57, 48, 48, 49, 48, 49, 49, 50, 51, 52] @ DOT_PDF] = Inl OSError" for fs
    using u by (simp add: stat_exists_def NAME_MAX_def)
  have "utf8_length (PREFIX @ [24352, 19977] @ [49, 49, 48, 49, 48, 49, 49, 57, 57, 48, 48, 49, 48, 49, 49, 50, 51, 52] @ DOT_PDF) = 62"
    by (simp add: utf8_length_def utf8_bytes_def PREFIX_def DOT_PDF_def)
  then have s2: "stat_exists fs [[100], PREFIX @ [24352, 19977] @ [49, 49, 48, 49, 48, 49, 49, 57, 57, 48, 48, 49, 48, 49, 49, 50, 51, 52] @ DOT_PDF]
      = Inr (path_exists fs [[100], PREFIX @ [24352, 19977] @ [49, 49, 48, 49, 48, 49, 49, 57, 57, 48, 48, 49, 48, 49, 49, 50, 51, 52] @ DOT_PDF])" for fs
    by (simp add: stat_exists_def NAME_MAX_def utf8_length_def utf8_bytes_def)
  have d: "PREFIX @ [24352, 19977] @ [49, 49, 48, 49, 48, 49, 49, 57, 57, 48, 48, 49, 48, 49, 49, 50, 51, 52] @ DOT_PDF \<noteq> PREFIX @ [49, 50, 51, 52, 53] @ DOT_PDF"
       "PREFIX @ [24352, 19977] @ [49, 49, 48, 49, 48, 49, 49, 57, 57, 48, 48, 49, 48, 49, 49, 50, 51, 52] @ DOT_PDF \<noteq> [98, 46, 112, 100, 102]"
       "PREFIX @ [49, 50, 51, 52, 53] @ DOT_PDF \<noteq> [98, 46, 112, 100, 102]"
    by (simp_all add: PREFIX_def)
  have r1: "rename_loop path_rename [[49, 50, 51, 52, 53] \<mapsto> (replicate 90 24352, [49, 49, 48, 49, 48, 49, 49, 57, 57, 48, 48, 49, 48, 49, 49, 50, 51, 52])] [[100]]
        [([[100], PREFIX @ [49, 50, 51, 52, 53] @ DOT_PDF], Blob 0), ([[100], [98, 46, 112, 100, 102]], Blob 1)]
        [[[100], PREFIX @ [49, 50, 51, 52, 53] @ DOT_PDF], [[100], [98, 46, 112, 100, 102]]]
      = ((\<lparr>success_count = 0, failed_count = 0, skipped_count = 0\<rparr>,
          [([[100], PREFIX @ [49, 50, 51, 52, 53] @ DOT_PDF], Blob 0), ([[100], [98, 46, 112, 100, 102]], Blob 1)]),
         Some OSError)"
    using e1 b1 b2 s1 by (simp add: rename_loop_def rename_step_def name_of_def)
  have r2: "rename_loop path_rename [[49, 50, 51, 52, 53] \<mapsto> ([24352, 19977], [49, 49, 48, 49, 48, 49, 49, 57, 57, 48, 48, 49, 48, 49, 49, 50, 51, 52])] [[100]]
        [([[100], PREFIX @ [49, 50, 51, 52, 53] @ DOT_PDF], Blob 0), ([[100], [98, 46, 112, 100, 102]], Blob 1)]
        [[[100], PREFIX @ [49, 50, 51, 52, 53] @ DOT_PDF], [[100], [98, 46, 112, 100, 102]]]
      = ((\<lparr>success_count = 1, failed_count = 0, skipped_count = 1\<rparr>,
          [([[100], [98, 46, 112, 100, 102]], Blob 1),
           ([[100], PREFIX @ [24352, 19977] @ [49, 49, 48, 49, 48, 49, 49, 57, 57, 48, 48, 49, 48, 49, 49, 50, 51, 52] @ DOT_PDF], Blob 0)]),
         None)"
    using e1 e2 b3 b2 s2 d
    by (simp add: rename_loop_def rename_step_def name_of_def path_exists_def path_rename_def)
  from u r1 r2 show ?thesis by simp
qed

text \<open>
  An example run of the copy loop: one document is copied, one has no ID in its name,
  and one is not in the file table, so that the primitive raises.
\<close>

lemma match_and_copy_loop_example:
  "match_and_copy_loop copy2 {[49, 49, 48, 49, 48, 49, 49, 57, 57, 48, 48, 49, 48, 49, 49, 50, 51, 52]} [[100], [111]]
     [([[100], PREFIX @ [24352, 19977] @ [49, 49, 48, 49, 48, 49, 49, 57, 57, 48, 48, 49, 48, 49, 49, 50, 51, 52] @ DOT_PDF], Blob 0), ([[100], [98, 46, 112, 100, 102]], Blob 1)]
     [[[100], PREFIX @ [24352, 19977] @ [49, 49, 48, 49, 48, 49, 49, 57, 57, 48, 48, 49, 48, 49, 49, 50, 51, 52] @ DOT_PDF], [[100], [98, 46, 112, 100, 102]],
      [[101], PREFIX @ [24352, 19977] @ [49, 49, 48, 49, 48, 49, 49, 57, 57, 48, 48, 49, 48, 49, 49, 50, 51, 52] @ DOT_PDF]]
   = (\<lparr>matched_count = 1, unmatched_count = 1, error_count = 1\<rparr>,
      [([[100], PREFIX @ [24352, 19977] @ [49, 49, 48, 49, 48, 49, 49, 57, 57, 48, 48, 49, 48, 49, 49, 50, 51, 52] @ DOT_PDF], Blob 0), ([[100], [98, 46, 112, 100, 102]], Blob 1),
       ([[100], [111], PREFIX @ [24352, 19977] @ [49, 49, 48, 49, 48, 49, 49, 57, 57, 48, 48, 49, 48, 49, 49, 50, 51, 52] @ DOT_PDF], Blob 0)])"
proof -
  have e1: "extract_name_and_id_from_filename (PREFIX @ [24352, 19977] @ [49, 49, 48, 49, 48, 49, 49, 57, 57, 48, 48, 49, 48, 49, 49, 50, 51, 52] @ DOT_PDF)
     = Some ([24352, 19977], [49, 49, 48, 49, 48, 49, 49, 57, 57, 48, 48, 49, 48, 49, 49, 50, 51, 52])"
    by (simp add: grammar_b_eval)
  have e2: "extract_name_and_id_from_filename [98, 46, 112, 100, 102] = None"
    by (simp add: grammar_b_eval)
  show ?thesis
    using e1 e2
    by (simp add: match_and_copy_loop_def copy_step_def name_of_def collision_free_dest_def
          path_exists_def copy2_def free_dest.simps suffixed_def)
qed


section \<open>The backup of the sheet\<close>

lemma with_suffix_Inr: "with_suffix p sfx = Inr q \<Longrightarrow> p \<noteq> [] \<and> q = butlast p @ [stem_of (name_of p) @ sfx]"
  by (auto simp: with_suffix_def name_of_def split: if_splits)

lemma path_split: "p \<noteq> [] \<Longrightarrow> p = butlast p @ [stem_of (name_of p) @ suffix_of (name_of p)]"
  by (simp add: stem_suffix name_of_def)

lemma sibling_neq:
  assumes "p \<noteq> []" "suffix_of (name_of p) \<noteq> sfx"
  shows "butlast p @ [stem_of (name_of p) @ sfx] \<noteq> p"
proof
  assume "butlast p @ [stem_of (name_of p) @ sfx] = p"
  with path_split[OF assms(1)]
  have "butlast p @ [stem_of (name_of p) @ sfx] = butlast p @ [stem_of (name_of p) @ suffix_of (name_of p)]"
    by simp
  then show False using assms(2) by simp
qed

lemma xls_suffix_length:
  "py_lower (suffix_of (name_of p)) = DOT_XLS \<Longrightarrow> length (suffix_of (name_of p)) = 4"
proof -
  assume "py_lower (suffix_of (name_of p)) = DOT_XLS"
  then have "length (py_lower (suffix_of (name_of p))) = length DOT_XLS" by simp
  then show ?thesis by (simp add: py_lower_def DOT_XLS_def)
qed

lemma exists_update: "path_exists (AList.update k v fs) q = (q = k \<or> path_exists fs q)"
  by (simp add: path_exists_def update_conv')

lemma exists_delete: "path_exists (AList.delete k fs) q = (q \<noteq> k \<and> path_exists fs q)"
  by (simp add: path_exists_def delete_conv')

lemma remove_old_backup_spec:
  "remove_old_backup fs b = Inr fs1 \<Longrightarrow>
     \<not> path_exists fs1 b \<and> (\<forall>q. q \<noteq> b \<longrightarrow> map_of fs1 q = map_of fs q)"
  by (auto simp: remove_old_backup_def unlink_def exists_delete delete_conv' split: if_splits)

lemma save_first_state:
  assumes "save_annotated fs p df = (fs1 # others, e)"
  shows "\<not> path_exists fs1 (backup_path_of p) \<and> (\<forall>q. q \<noteq> backup_path_of p \<longrightarrow> map_of fs1 q = map_of fs q)"
proof (cases "py_lower (suffix_of (name_of p)) = DOT_XLS")
  case True
  from assms True obtain b where b: "with_suffix p (DOT_XLSX @ DOT_BACKUP) = Inr b"
    and r: "remove_old_backup fs b = Inr fs1"
    by (auto simp: save_annotated_def split: sum.splits)
  from with_suffix_Inr[OF b] True have "b = backup_path_of p" by (simp add: backup_path_of_def)
  with remove_old_backup_spec[OF r] show ?thesis by simp
next
  case False
  from assms False obtain b where b: "with_suffix p DOT_BACKUP = Inr b"
    and r: "remove_old_backup fs b = Inr fs1"
    by (auto simp: save_annotated_def split: sum.splits)
  from with_suffix_Inr[OF b] False have "b = backup_path_of p" by (simp add: backup_path_of_def)
  with remove_old_backup_spec[OF r] show ?thesis by simp
qed

lemma save_xls_states:
  assumes s: "save_annotated fs p df = ([fs1, fs2, fs3], None)"
    and x: "py_lower (suffix_of (name_of p)) = DOT_XLS"
  shows "map_of fs2 (backup_path_of p) = map_of fs p \<and> path_exists fs p
       \<and> \<not> path_exists fs2 p \<and> \<not> path_exists fs3 p
       \<and> map_of fs3 (backup_path_of p) = map_of fs p
       \<and> map_of fs3 (new_excel_path_of p) = Some (Workbook df)"
proof -
  from s x obtain b nw where b: "with_suffix p (DOT_XLSX @ DOT_BACKUP) = Inr b"
    and r: "remove_old_backup fs b = Inr fs1"
    and rn: "path_rename fs1 p b = Inr fs2"
    and n: "with_suffix p DOT_XLSX = Inr nw"
    and w: "to_excel fs2 df nw = Inr fs3"
    by (auto simp: save_annotated_def split: sum.splits)
  from with_suffix_Inr[OF b] x have ne: "p \<noteq> []" and bp: "b = backup_path_of p"
    by (simp_all add: backup_path_of_def)
  from with_suffix_Inr[OF n] have np: "nw = new_excel_path_of p" by (simp add: new_excel_path_of_def)
  have l4: "length (suffix_of (name_of p)) = 4" using x by (rule xls_suffix_length)
  have "suffix_of (name_of p) \<noteq> DOT_XLSX @ DOT_BACKUP" using l4 by (auto simp: DOT_XLSX_def)
  from sibling_neq[OF ne this] have bne: "b \<noteq> p" using bp x by (simp add: backup_path_of_def)
  have "suffix_of (name_of p) \<noteq> DOT_XLSX" using l4 by (auto simp: DOT_XLSX_def)
  from sibling_neq[OF ne this] have nne: "nw \<noteq> p" using np by (simp add: new_excel_path_of_def)
  have nb: "nw \<noteq> b" unfolding np bp new_excel_path_of_def backup_path_of_def
    by (simp add: x DOT_BACKUP_def)
  from remove_old_backup_spec[OF r] bne have p1: "map_of fs1 p = map_of fs p" by simp
  from rn obtain c where c: "map_of fs1 p = Some c"
    and fs2: "fs2 = AList.update b c (AList.delete p fs1)"
    using bne by (auto simp: path_rename_def split: option.splits)
  from w have fs3: "fs3 = AList.update nw (Workbook df) fs2" by (simp add: to_excel_def)
  have "map_of fs2 b = map_of fs p" using c p1 by (simp add: fs2 update_conv')
  moreover have "path_exists fs p" using c p1 by (simp add: path_exists_def)
  moreover have "\<not> path_exists fs2 p" using bne by (simp add: fs2 exists_update exists_delete)
  moreover have "\<not> path_exists fs3 p" using bne nne by (simp add: fs3 fs2 exists_update exists_delete)
  moreover have "map_of fs3 b = map_of fs p" using c p1 nb by (simp add: fs3 fs2 update_conv')
  moreover have "map_of fs3 nw = Some (Workbook df)" by (simp add: fs3 update_conv')
  ultimately show ?thesis using bp np by simp
qed

lemma save_other_states:
  assumes s: "save_annotated fs p df = ([fs1, fs2, fs3], None)"
    and x: "py_lower (suffix_of (name_of p)) \<noteq> DOT_XLS"
  shows "map_of fs2 (backup_path_of p) = map_of fs p \<and> path_exists fs p
       \<and> map_of fs3 (backup_path_of p) = map_of fs p
       \<and> map_of fs3 p = Some (Workbook df)"
proof -
  from s x obtain b where b: "with_suffix p DOT_BACKUP = Inr b"
    and r: "remove_old_backup fs b = Inr fs1"
    and cp: "copy2 fs1 p b = Inr fs2"
    and w: "to_excel fs2 df p = Inr fs3"
    by (auto simp: save_annotated_def split: sum.splits)
  from with_suffix_Inr[OF b] x have bp: "b = backup_path_of p"
    by (simp_all add: backup_path_of_def)
  from cp obtain c where c: "map_of fs1 p = Some c" and bne: "p \<noteq> b"
    and fs2: "fs2 = AList.update b c fs1"
    by (auto simp: copy2_def split: option.splits if_splits)
  from remove_old_backup_spec[OF r] bne have p1: "map_of fs1 p = map_of fs p" by simp
  from w have fs3: "fs3 = AList.update p (Workbook df) fs2" by (simp add: to_excel_def)
  have "map_of fs2 b = map_of fs p" using c p1 by (simp add: fs2 update_conv')
  moreover have "path_exists fs p" using c p1 by (simp add: path_exists_def)
  moreover have "map_of fs3 b = map_of fs p" using c p1 bne by (simp add: fs3 fs2 update_conv')
  moreover have "map_of fs3 p = Some (Workbook df)" by (simp add: fs3 update_conv')
  ultimately show ?thesis using bp by simp
qed

text \<open>
  Claim C10.  Whenever the block that saves the sheet gets past its first step, the
  file system it continues with has no file at the backup path: an older backup is
  removed before the new one is made.  When the block ends without an exception, the
  spreadsheet existed, and the backup path holds the content the spreadsheet had
  before the block, both when the backup is made and at the end, so one generation of
  backup is kept.  For an \<open>.xls\<close> input the spreadsheet is renamed to the backup path
  first: no file is at the original path while the annotated workbook is written, nor
  afterwards, and the workbook is at the \<open>.xlsx\<close> path.  Otherwise the workbook is
  written over the original path.
\<close>

theorem one_backup_generation:
  "(save_annotated fs p df = (fs1 # others, e) \<longrightarrow> \<not> path_exists fs1 (backup_path_of p))
   \<and> (save_annotated fs p df = ([fs1, fs2, fs3], None) \<longrightarrow>
        path_exists fs p
        \<and> map_of fs2 (backup_path_of p) = map_of fs p
        \<and> map_of fs3 (backup_path_of p) = map_of fs p)
   \<and> (save_annotated fs p df = ([fs1, fs2, fs3], None) \<and> py_lower (suffix_of (name_of p)) = DOT_XLS \<longrightarrow>
        \<not> path_exists fs2 p \<and> \<not> path_exists fs3 p
        \<and> map_of fs3 (new_excel_path_of p) = Some (Workbook df))
   \<and> (save_annotated fs p df = ([fs1, fs2, fs3], None) \<and> py_lower (suffix_of (name_of p)) \<noteq> DOT_XLS \<longrightarrow>
        map_of fs3 p = Some (Workbook df))"
  using save_first_state[of fs p df fs1 others e] save_xls_states[of fs p df fs1 fs2 fs3]
    save_other_states[of fs p df fs1 fs2 fs3]
  by blast


lemmas save_eval = save_annotated_def with_suffix_def remove_old_backup_def unlink_def
  path_rename_def copy2_def to_excel_def path_exists_def name_of_def stem_of_def suffix_of_def
  py_lower_def ascii_lower_def DOT_XLS_def DOT_XLSX_def DOT_BACKUP_def Let_def

theorem one_backup_generation_witness:
  "save_annotated [([[100], [97, 46, 120, 108, 115]], Workbook \<lparr>columns = [], rows = []\<rparr>), ([[100], [97, 46, 120, 108, 115, 120, 46, 98, 97, 99, 107, 117, 112]], Blob 7)]
       [[100], [97, 46, 120, 108, 115]] \<lparr>columns = [[109]], rows = []\<rparr>
     = ([[([[100], [97, 46, 120, 108, 115]], Workbook \<lparr>columns = [], rows = []\<rparr>)],
         [([[100], [97, 46, 120, 108, 115, 120, 46, 98, 97, 99, 107, 117, 112]], Workbook \<lparr>columns = [], rows = []\<rparr>)],
         [([[100], [97, 46, 120, 108, 115, 120, 46, 98, 97, 99, 107, 117, 112]], Workbook \<lparr>columns = [], rows = []\<rparr>),
          ([[100], [97, 46, 120, 108, 115, 120]], Workbook \<lparr>columns = [[109]], rows = []\<rparr>)]], None)
   \<and> py_lower (suffix_of (name_of [[100], [97, 46, 120, 108, 115]])) = DOT_XLS
   \<and> save_annotated [([[100], [97, 46, 120, 108, 115, 120]], Workbook \<lparr>columns = [], rows = []\<rparr>), ([[100], [97, 46, 98, 97, 99, 107, 117, 112]], Blob 7)]
       [[100], [97, 46, 120, 108, 115, 120]] \<lparr>columns = [[109]], rows = []\<rparr>
     = ([[([[100], [97, 46, 120, 108, 115, 120]], Workbook \<lparr>columns = [], rows = []\<rparr>)],
         [([[100], [97, 46, 120, 108, 115, 120]], Workbook \<lparr>columns = [], rows = []\<rparr>), ([[100], [97, 46, 98, 97, 99, 107, 117, 112]], Workbook \<lparr>columns = [], rows = []\<rparr>)],
         [([[100], [97, 46, 120, 108, 115, 120]], Workbook \<lparr>columns = [[109]], rows = []\<rparr>), ([[100], [97, 46, 98, 97, 99, 107, 117, 112]], Workbook \<lparr>columns = [], rows = []\<rparr>)]], None)
   \<and> py_lower (suffix_of (name_of [[100], [97, 46, 120, 108, 115, 120]])) \<noteq> DOT_XLS
   \<and> backup_path_of [[100], [97, 46, 120, 108, 115]] = [[100], [97, 46, 120, 108, 115, 120, 46, 98, 97, 99, 107, 117, 112]]
   \<and> new_excel_path_of [[100], [97, 46, 120, 108, 115]] = [[100], [97, 46, 120, 108, 115, 120]]
   \<and> backup_path_of [[100], [97, 46, 120, 108, 115, 120]] = [[100], [97, 46, 98, 97, 99, 107, 117, 112]]"
proof -
  let ?P = "[[100], [97, 46, 120, 108, 115]] :: path"
  let ?B = "[[100], [97, 46, 120, 108, 115, 120, 46, 98, 97, 99, 107, 117, 112]] :: path"
  let ?N = "[[100], [97, 46, 120, 108, 115, 120]] :: path"
  let ?B2 = "[[100], [97, 46, 98, 97, 99, 107, 117, 112]] :: path"
  let ?D0 = "\<lparr>columns = [], rows = []\<rparr>" and ?D1 = "\<lparr>columns = [[109]], rows = []\<rparr>"
  have 1: "save_annotated [(?P, Workbook ?D0), (?B, Blob 7)] ?P ?D1
     = ([[(?P, Workbook ?D0)], [(?B, Workbook ?D0)], [(?B, Workbook ?D0), (?N, Workbook ?D1)]], None)"
    by (simp add: save_eval)
  have 2: "save_annotated [(?N, Workbook ?D0), (?B2, Blob 7)] ?N ?D1
     = ([[(?N, Workbook ?D0)], [(?N, Workbook ?D0), (?B2, Workbook ?D0)],
         [(?N, Workbook ?D1), (?B2, Workbook ?D0)]], None)"
    by (simp add: save_eval)
  have 3: "py_lower (suffix_of (name_of ?P)) = DOT_XLS"
      "py_lower (suffix_of (name_of ?N)) \<noteq> DOT_XLS"
    by (simp_all add: save_eval)
  have 4: "backup_path_of ?P = ?B" "new_excel_path_of ?P = ?N" "backup_path_of ?N = ?B2"
    by (simp_all add: backup_path_of_def new_excel_path_of_def save_eval)
  from 1 2 3 4
    one_backup_generation[of "[(?P, Workbook ?D0), (?B, Blob 7)]" ?P ?D1
      "[(?P, Workbook ?D0)]" "[[(?B, Workbook ?D0)], [(?B, Workbook ?D0), (?N, Workbook ?D1)]]" None
      "[(?B, Workbook ?D0)]" "[(?B, Workbook ?D0), (?N, Workbook ?D1)]"]
    one_backup_generation[of "[(?N, Workbook ?D0), (?B2, Blob 7)]" ?N ?D1
      "[(?N, Workbook ?D0)]"
      "[[(?N, Workbook ?D0), (?B2, Workbook ?D0)], [(?N, Workbook ?D1), (?B2, Workbook ?D0)]]" None
      "[(?N, Workbook ?D0), (?B2, Workbook ?D0)]" "[(?N, Workbook ?D1), (?B2, Workbook ?D0)]"]
  show ?thesis by simp
qed

end
